theory Spec2Isabelle
  imports Main "HOL-Library.AList"
begin

section \<open>Data model\<close>

text \<open>
  The C++ sources work on \<^verbatim>\<open>int\<close> node ids, capacities and costs (32 bits). They are
  modelled as integers, and the result of an \<^verbatim>\<open>int\<close> operation that can leave the range
  \<open>INT_MIN .. INT_MAX\<close> is written out where the sources compute it: it wraps around
  (two's complement), which is what the compiled code does. The functions that are
  modelled from the specification compute with exact integers, as the specification does.
  Exceptions are values: \<^verbatim>\<open>std::invalid_argument\<close> and the \<^verbatim>\<open>std::out_of_range\<close> of
  \<^verbatim>\<open>std::vector::at\<close>.
\<close>

datatype error = InvalidArgument | OutOfRange

text \<open>An edge \<open>(source, sink, capacity, cost)\<close>, with the getters the sources call.\<close>

datatype Edge = Edge (getSource: int) (getSink: int) (getCapacity: int) (getWeight: int)

text \<open>
  The class \<^verbatim>\<open>Graph\<close> of \<^verbatim>\<open>Graph.h\<close>: the starting number of nodes
  (\<^verbatim>\<open>num_nodes\<close>), the adjacency lists (\<^verbatim>\<open>g\<close>, a \<^verbatim>\<open>std::map\<close> from node id to the
  vector of outgoing edges, here an association list with distinct keys) and the map of
  artificial nodes (\<^verbatim>\<open>artificial_nodes\<close>).
\<close>

datatype Graph = Graph (getStartingNumNodes: int) (getGraph: "(int \<times> Edge list) list")
  (getArtificialNodesMap: "(int \<times> Edge) list")

definition bindE :: "error + 'a \<Rightarrow> ('a \<Rightarrow> error + 'b) \<Rightarrow> error + 'b" where
  "bindE m f = (case m of Inl e \<Rightarrow> Inl e | Inr x \<Rightarrow> f x)"

text \<open>A \<^verbatim>\<open>for\<close> loop over a sequence whose body may throw: the first exception ends it.\<close>

fun foldE :: "('s \<Rightarrow> 'a \<Rightarrow> error + 's) \<Rightarrow> 'a list \<Rightarrow> 's \<Rightarrow> error + 's" where
  "foldE f [] s = Inr s"
| "foldE f (x # xs) s = (case f s x of Inl e \<Rightarrow> Inl e | Inr s' \<Rightarrow> foldE f xs s')"

text \<open>\<^verbatim>\<open>std::vector::at\<close>: bounds-checked access. A negative \<^verbatim>\<open>int\<close> index converts to a
  huge \<^verbatim>\<open>size_t\<close> and is out of range as well.\<close>

definition vec_at :: "'a list \<Rightarrow> int \<Rightarrow> error + 'a" where
  "vec_at xs i = (if 0 \<le> i \<and> i < int (length xs) then Inr (xs ! nat i) else Inl OutOfRange)"

text \<open>\<^verbatim>\<open>path->size() - 1\<close> in \<^verbatim>\<open>size_t\<close> (64-bit unsigned) arithmetic: the subtraction
  wraps around to \<^verbatim>\<open>SIZE_MAX\<close> when the vector is empty. (A vector never holds more
  than \<^verbatim>\<open>SIZE_MAX\<close> elements, so no other case wraps.)\<close>

definition SIZE_MAX :: int where
  "SIZE_MAX = 2 ^ 64 - 1"

definition size_minus_one :: "'a list \<Rightarrow> int" where
  "size_minus_one xs = (if xs = [] then SIZE_MAX else int (length xs) - 1)"

definition INT_MAX :: int where
  "INT_MAX = 2147483647"

definition INT_MIN :: int where
  "INT_MIN = - 2147483648"

text \<open>The \<^verbatim>\<open>int\<close> that an arithmetic operation with the exact result \<open>x\<close> yields: \<open>x\<close>
  reduced modulo \<open>2^32\<close> into \<open>INT_MIN .. INT_MAX\<close>.\<close>

definition int32 :: "int \<Rightarrow> int" where
  "int32 x = (x + 2147483648) mod 4294967296 - 2147483648"

section \<open>The graph class\<close>

text \<open>
  Modelled from the spec: the member functions of \<^verbatim>\<open>Graph\<close>. \<^verbatim>\<open>Graph.cpp\<close> is not among
  the sources; only the declarations of \<^verbatim>\<open>Graph.h\<close> and the callers are. The
  definitions of this section follow section 4.1 of the specification and the
  documentation comments of the header.
\<close>

text \<open>Modelled from the spec: the constructor \<^verbatim>\<open>Graph(num_nodes)\<close>. The nodes
  \<open>0 .. num_nodes - 1\<close> exist, without edges; the artificial-node map is empty.\<close>

definition new_Graph :: "int \<Rightarrow> Graph" where
  "new_Graph num_nodes = Graph num_nodes (map (\<lambda>i. (i, [])) [0 .. num_nodes - 1]) []"

text \<open>Modelled from the spec: \<^verbatim>\<open>getNumNodes\<close>, the current number of nodes.\<close>

definition getNumNodes :: "Graph \<Rightarrow> int" where
  "getNumNodes gr = int (length (getGraph gr))"

definition nodeExists :: "Graph \<Rightarrow> int \<Rightarrow> bool" where
  "nodeExists gr node = (map_of (getGraph gr) node \<noteq> None)"

text \<open>Modelled from the spec: \<^verbatim>\<open>getNodeAdjList\<close>, which throws if the node does not
  exist.\<close>

definition getNodeAdjList :: "Graph \<Rightarrow> int \<Rightarrow> error + Edge list" where
  "getNodeAdjList gr node =
     (case map_of (getGraph gr) node of None \<Rightarrow> Inl InvalidArgument | Some es \<Rightarrow> Inr es)"

definition findEdge :: "Edge list \<Rightarrow> int \<Rightarrow> Edge option" where
  "findEdge es t = find (\<lambda>e. getSink e = t) es"

text \<open>The edge \<open>s \<rightarrow> t\<close> of a graph, if the source and the edge exist; the adjacency list of
  a node, empty for a node that does not exist.\<close>

definition lookupEdge :: "Graph \<Rightarrow> int \<Rightarrow> int \<Rightarrow> Edge option" where
  "lookupEdge gr s t =
     (case map_of (getGraph gr) s of None \<Rightarrow> None | Some es \<Rightarrow> findEdge es t)"

definition adjOf :: "Graph \<Rightarrow> int \<Rightarrow> Edge list" where
  "adjOf gr node = (case map_of (getGraph gr) node of None \<Rightarrow> [] | Some es \<Rightarrow> es)"

text \<open>Modelled from the spec: \<^verbatim>\<open>hasEdge\<close>, which throws if a node does not exist.\<close>

definition hasEdge :: "Graph \<Rightarrow> int \<Rightarrow> int \<Rightarrow> error + bool" where
  "hasEdge gr s t =
     (if nodeExists gr s \<and> nodeExists gr t then Inr (lookupEdge gr s t \<noteq> None)
      else Inl InvalidArgument)"

text \<open>Modelled from the spec: \<^verbatim>\<open>getEdge\<close>, which throws if an endpoint or the edge does
  not exist.\<close>

definition getEdge :: "Graph \<Rightarrow> int \<Rightarrow> int \<Rightarrow> error + Edge" where
  "getEdge gr s t =
     (if nodeExists gr s \<and> nodeExists gr t then
        (case lookupEdge gr s t of None \<Rightarrow> Inl InvalidArgument | Some e \<Rightarrow> Inr e)
      else Inl InvalidArgument)"

text \<open>Replacing the adjacency list of a node (and creating the node if it is new).\<close>

definition setAdj :: "Graph \<Rightarrow> int \<Rightarrow> Edge list \<Rightarrow> Graph" where
  "setAdj gr node es =
     Graph (getStartingNumNodes gr) (AList.update node es (getGraph gr))
       (getArtificialNodesMap gr)"

definition withCapacity :: "int \<Rightarrow> Edge \<Rightarrow> Edge" where
  "withCapacity c e = Edge (getSource e) (getSink e) c (getWeight e)"

text \<open>Modelled from the spec: \<^verbatim>\<open>setEdgeCapacity\<close>, which throws if an endpoint or the edge
  does not exist or the capacity is negative, and otherwise changes the capacity of the
  edge in place.\<close>

definition setEdgeCapacity :: "Graph \<Rightarrow> int \<Rightarrow> int \<Rightarrow> int \<Rightarrow> error + Graph" where
  "setEdgeCapacity gr s t c =
     (if nodeExists gr s \<and> nodeExists gr t \<and> lookupEdge gr s t \<noteq> None \<and> 0 \<le> c then
        Inr (setAdj gr s (map (\<lambda>e. if getSink e = t then withCapacity c e else e) (adjOf gr s)))
      else Inl InvalidArgument)"

text \<open>Modelled from the spec: \<^verbatim>\<open>removeEdge\<close>, which throws if an endpoint or the edge does
  not exist, and otherwise erases the edge from the list of its source.\<close>

definition removeEdge :: "Graph \<Rightarrow> int \<Rightarrow> int \<Rightarrow> error + Graph" where
  "removeEdge gr s t =
     (if nodeExists gr s \<and> nodeExists gr t \<and> lookupEdge gr s t \<noteq> None then
        Inr (setAdj gr s (filter (\<lambda>e. getSink e \<noteq> t) (adjOf gr s)))
      else Inl InvalidArgument)"

definition ensureNode :: "Graph \<Rightarrow> int \<Rightarrow> Graph" where
  "ensureNode gr node = (if nodeExists gr node then gr else setAdj gr node [])"

text \<open>Modelled from the spec: \<^verbatim>\<open>addEdge\<close>. It fails with \<^verbatim>\<open>InvalidArgument\<close> if an
  endpoint is negative, an endpoint exceeds the current node count plus one, the edge
  already exists or the capacity is negative. Otherwise it creates the endpoints that do
  not exist yet and appends the edge to the list of its source (insertion order).\<close>

definition addEdge :: "Graph \<Rightarrow> int \<Rightarrow> int \<Rightarrow> int \<Rightarrow> int \<Rightarrow> error + Graph" where
  "addEdge gr s t c w =
     (if s < 0 \<or> t < 0 \<or> s > getNumNodes gr + 1 \<or> t > getNumNodes gr + 1
         \<or> lookupEdge gr s t \<noteq> None \<or> c < 0
      then Inl InvalidArgument
      else let gr' = ensureNode (ensureNode gr s) t
           in Inr (setAdj gr' s (adjOf gr' s @ [Edge s t c w])))"

text \<open>Modelled from the spec: \<^verbatim>\<open>addArtificialNodes\<close>, which records the edge that an
  artificial node stands for. No function of the sources calls it.\<close>

definition addArtificialNodes :: "Graph \<Rightarrow> int \<Rightarrow> Edge \<Rightarrow> Graph" where
  "addArtificialNodes gr node e =
     Graph (getStartingNumNodes gr) (getGraph gr) (AList.update node e (getArtificialNodesMap gr))"

text \<open>Two views of the stored edges: all edges of all adjacency lists, and the edges
  paired with their source in the order in which a loop over the node ids \<open>0 .. count - 1\<close>
  and over each adjacency list visits them.\<close>

definition allEdges :: "Graph \<Rightarrow> Edge list" where
  "allEdges gr = concat (map snd (getGraph gr))"

definition edgeList :: "Graph \<Rightarrow> (int \<times> Edge) list" where
  "edgeList gr = concat (map (\<lambda>s. map (Pair s) (adjOf gr s)) [0 .. getNumNodes gr - 1])"

section \<open>GraphUtils\<close>

subsection \<open>RetrievePath\<close>

text \<open>
  \<^verbatim>\<open>RetrievePath\<close> pushes the start node, reads its parent, and then loops while the
  current node is not \<open>-1\<close> and not yet in the path: push it, read its parent (which throws
  when the node is no index of \<^verbatim>\<open>parent\<close>). The collected vector is reversed at the end.
\<close>

lemma Diff_insert_psubset: "x \<notin> P \<Longrightarrow> x \<in> A \<Longrightarrow> A - insert x P \<subset> A - P"
  by blast

lemma card_Diff_snoc_less:
  "finite A \<Longrightarrow> x \<notin> set xs \<Longrightarrow> x \<in> A \<Longrightarrow> card (A - set (xs @ [x])) < card (A - set xs)"
  by (rule psubset_card_mono) (simp_all add: Diff_insert_psubset)

lemma vec_at_Inr_iff: "vec_at xs i = Inr x \<longleftrightarrow> 0 \<le> i \<and> i < int (length xs) \<and> x = xs ! nat i"
  by (auto simp: vec_at_def)

function RetrievePathLoop :: "int list \<Rightarrow> int list \<Rightarrow> int \<Rightarrow> error + int list" where
  "RetrievePathLoop parent path tmp =
     (if tmp \<noteq> - 1 \<and> tmp \<notin> set path then
        (case vec_at parent tmp of
           Inl e \<Rightarrow> Inl e
         | Inr tmp' \<Rightarrow> RetrievePathLoop parent (path @ [tmp]) tmp')
      else Inr path)"
  by pat_completeness auto
termination
proof (relation "measure (\<lambda>(parent, path, tmp). card ({0 ..< int (length parent)} - set path))")
  show "wf (measure (\<lambda>(parent, path, tmp). card ({0 ..< int (length parent)} - set path)))"
    by simp
next
  fix parent :: "int list" and path :: "int list" and tmp tmp' :: int
  assume c: "tmp \<noteq> - 1 \<and> tmp \<notin> set path" and v: "vec_at parent tmp = Inr tmp'"
  from v have r: "tmp \<in> {0 ..< int (length parent)}"
    by (simp add: vec_at_Inr_iff)
  have "card ({0 ..< int (length parent)} - set (path @ [tmp]))
      < card ({0 ..< int (length parent)} - set path)"
    using c r by (intro card_Diff_snoc_less) simp_all
  then show "((parent, path @ [tmp], tmp'), (parent, path, tmp))
      \<in> measure (\<lambda>(parent, path, tmp). card ({0 ..< int (length parent)} - set path))"
    by simp
qed

declare RetrievePathLoop.simps [simp del]

definition RetrievePath :: "int list \<Rightarrow> int \<Rightarrow> error + int list" where
  "RetrievePath parent start_node =
     (case vec_at parent start_node of
        Inl e \<Rightarrow> Inl e
      | Inr tmp \<Rightarrow>
          (case RetrievePathLoop parent [start_node] tmp of
             Inl e \<Rightarrow> Inl e
           | Inr path \<Rightarrow> Inr (rev path)))"

subsection \<open>GetResidualCapacity\<close>

text \<open>The loop counter \<open>u\<close> is an \<^verbatim>\<open>unsigned\<close>; paths are taken to be shorter than
  \<open>2^31\<close> nodes, so neither \<open>u\<close> nor \<^verbatim>\<open>static_cast<int>(u + 1)\<close> wraps.\<close>

function GetResidualCapacityLoop :: "Graph \<Rightarrow> int list \<Rightarrow> int \<Rightarrow> nat \<Rightarrow> error + int" where
  "GetResidualCapacityLoop residual_graph path path_flow u =
     (if int u < size_minus_one path then
        (case vec_at path (int u) of
           Inl e \<Rightarrow> Inl e
         | Inr source \<Rightarrow>
             (case vec_at path (int u + 1) of
                Inl e \<Rightarrow> Inl e
              | Inr sink \<Rightarrow>
                  (case getEdge residual_graph source sink of
                     Inl e \<Rightarrow> Inl e
                   | Inr edge \<Rightarrow>
                       GetResidualCapacityLoop residual_graph path
                         (min path_flow (getCapacity edge)) (Suc u))))
      else Inr path_flow)"
  by pat_completeness auto
termination
  by (relation "measure (\<lambda>(rg, path, pf, u). nat (size_minus_one path) - u)") auto

declare GetResidualCapacityLoop.simps [simp del]

definition GetResidualCapacity :: "Graph \<Rightarrow> int list \<Rightarrow> error + int" where
  "GetResidualCapacity residual_graph path =
     (if length path \<le> 1 then Inr 0
      else GetResidualCapacityLoop residual_graph path INT_MAX 0)"

subsection \<open>SendFlowInPath\<close>

text \<open>
  A call \<^verbatim>\<open>setEdgeCapacity(s, t, c)\<close> in which \<open>c\<close> is the \<^verbatim>\<open>int\<close> result of
  \<open>capacity + flow\<close> or \<open>capacity - flow\<close>, with the exact value \<open>x\<close>. A stored capacity is an
  \<^verbatim>\<open>int\<close> \<open>\<ge> 0\<close> and the flow is an \<^verbatim>\<open>int\<close>, so \<open>x\<close> never falls below \<open>INT_MIN\<close>; when
  \<open>x\<close> exceeds \<open>INT_MAX\<close> the \<^verbatim>\<open>int\<close> has wrapped around to the negative value
  \<open>x - 2^32\<close>, and \<^verbatim>\<open>setEdgeCapacity\<close> throws on a negative capacity.
\<close>

definition setEdgeCapacityInt :: "Graph \<Rightarrow> int \<Rightarrow> int \<Rightarrow> int \<Rightarrow> error + Graph" where
  "setEdgeCapacityInt gr s t x =
     (if INT_MAX < x then Inl InvalidArgument else setEdgeCapacity gr s t x)"

text \<open>The body of the loop of \<^verbatim>\<open>SendFlowInPath\<close> for one pair \<open>(source, sink)\<close>. The cost of a
  new reverse edge is the \<^verbatim>\<open>int\<close> \<open>-weight\<close>.\<close>

definition SendFlowInEdge :: "Graph \<Rightarrow> int \<Rightarrow> int \<Rightarrow> int \<Rightarrow> error + Graph" where
  "SendFlowInEdge residual_graph source sink flow =
     bindE (getEdge residual_graph source sink) (\<lambda>edge.
       let weight = getWeight edge in
       bindE (if weight < 0 then Inr (getCapacity edge + flow)
              else if getCapacity edge < flow then Inl InvalidArgument
              else Inr (getCapacity edge - flow)) (\<lambda>capacity.
       bindE (setEdgeCapacityInt residual_graph source sink capacity) (\<lambda>g1.
       bindE (getEdge g1 source sink) (\<lambda>edge1.
       bindE (if getCapacity edge1 = 0 then removeEdge g1 source sink else Inr g1) (\<lambda>g2.
       bindE (hasEdge g2 sink source) (\<lambda>has_reverse.
         if \<not> has_reverse then addEdge g2 sink source flow (int32 (- weight))
         else bindE (getEdge g2 sink source) (\<lambda>reverse.
                setEdgeCapacityInt g2 sink source (getCapacity reverse + flow))))))))"

function SendFlowLoop :: "Graph \<Rightarrow> int list \<Rightarrow> int \<Rightarrow> nat \<Rightarrow> error + Graph" where
  "SendFlowLoop residual_graph path flow u =
     (if int u < size_minus_one path then
        (case vec_at path (int u) of
           Inl e \<Rightarrow> Inl e
         | Inr source \<Rightarrow>
             (case vec_at path (int u + 1) of
                Inl e \<Rightarrow> Inl e
              | Inr sink \<Rightarrow>
                  (case SendFlowInEdge residual_graph source sink flow of
                     Inl e \<Rightarrow> Inl e
                   | Inr g' \<Rightarrow> SendFlowLoop g' path flow (Suc u))))
      else Inr residual_graph)"
  by pat_completeness auto
termination
  by (relation "measure (\<lambda>(rg, path, flow, u). nat (size_minus_one path) - u)") auto

declare SendFlowLoop.simps [simp del]

definition SendFlowInPath :: "Graph \<Rightarrow> int list \<Rightarrow> int \<Rightarrow> error + Graph" where
  "SendFlowInPath residual_graph path flow = SendFlowLoop residual_graph path flow 0"

subsection \<open>GetResidualGraph\<close>

text \<open>The body of the inner loop of \<^verbatim>\<open>GetResidualGraph\<close>, for the edge \<open>e\<close> of the
  adjacency list of \<open>source\<close>. The second operand of \<^verbatim>\<open>&&\<close> is evaluated only when
  \<open>source < sink\<close>.\<close>

definition ResidualAddEdge :: "Graph \<Rightarrow> int \<Rightarrow> Graph \<Rightarrow> Edge \<Rightarrow> error + Graph" where
  "ResidualAddEdge graph source residual_graph e =
     (let sink = getSink e; capacity = getCapacity e; weight = getWeight e in
      if capacity \<le> 0 then Inr residual_graph
      else
        bindE (if source < sink then hasEdge graph sink source else Inr False) (\<lambda>anti_parallel.
          if anti_parallel then
            let artificial_node = getNumNodes residual_graph in
            bindE (addEdge residual_graph source artificial_node capacity weight) (\<lambda>g1.
              addEdge g1 artificial_node sink capacity weight)
          else addEdge residual_graph source sink capacity weight))"

definition ResidualAddNode :: "Graph \<Rightarrow> Graph \<Rightarrow> int \<Rightarrow> error + Graph" where
  "ResidualAddNode graph residual_graph source =
     bindE (getNodeAdjList graph source) (\<lambda>adj.
       foldE (ResidualAddEdge graph source) adj residual_graph)"

definition GetResidualGraph :: "Graph \<Rightarrow> error + Graph" where
  "GetResidualGraph graph =
     foldE (ResidualAddNode graph) [0 .. getNumNodes graph - 1] (new_Graph (getNumNodes graph))"

subsection \<open>GetOptimalGraph\<close>

text \<open>The body of the first inner loop: a negative-cost edge \<open>e\<close> leaving \<open>source\<close> in the
  residual graph becomes an edge into \<open>source\<close> of the optimal graph. When the sink of \<open>e\<close>
  is an artificial node, the edge starts at the sink of the first edge of the adjacency
  list of that node. The cost of the new edge is the \<^verbatim>\<open>int\<close> \<open>-weight\<close>.\<close>

definition OptimalAddEdge :: "Graph \<Rightarrow> int \<Rightarrow> Graph \<Rightarrow> Edge \<Rightarrow> error + Graph" where
  "OptimalAddEdge residual_graph source optimal_graph e =
     (if getWeight e \<ge> 0 then Inr optimal_graph
      else
        let sink = getSink e; capacity = getCapacity e; weight = getWeight e in
        if sink \<ge> getStartingNumNodes residual_graph then
          bindE (getNodeAdjList residual_graph sink) (\<lambda>adj.
          bindE (vec_at adj 0) (\<lambda>first.
            addEdge optimal_graph (getSink first) source capacity (int32 (- weight))))
        else addEdge optimal_graph sink source capacity (int32 (- weight)))"

definition OptimalAddNode :: "Graph \<Rightarrow> Graph \<Rightarrow> int \<Rightarrow> error + Graph" where
  "OptimalAddNode residual_graph optimal_graph source =
     bindE (getNodeAdjList residual_graph source) (\<lambda>adj.
       foldE (OptimalAddEdge residual_graph source) adj optimal_graph)"

text \<open>The body of the second inner loop: an edge of the original graph that the optimal
  graph does not have yet is added with flow 0.\<close>

definition OptimalAddZero :: "int \<Rightarrow> Graph \<Rightarrow> Edge \<Rightarrow> error + Graph" where
  "OptimalAddZero source optimal_graph e =
     bindE (hasEdge optimal_graph source (getSink e)) (\<lambda>has.
       if \<not> has then addEdge optimal_graph source (getSink e) 0 (getWeight e)
       else Inr optimal_graph)"

definition OptimalAddZeroNode :: "Graph \<Rightarrow> Graph \<Rightarrow> int \<Rightarrow> error + Graph" where
  "OptimalAddZeroNode graph optimal_graph source =
     bindE (getNodeAdjList graph source) (\<lambda>adj.
       foldE (OptimalAddZero source) adj optimal_graph)"

definition GetOptimalGraph :: "Graph \<Rightarrow> Graph \<Rightarrow> error + Graph" where
  "GetOptimalGraph residual_graph graph =
     bindE (foldE (OptimalAddNode residual_graph) [0 .. getStartingNumNodes residual_graph - 1]
              (new_Graph (getStartingNumNodes residual_graph))) (\<lambda>optimal_graph.
       foldE (OptimalAddZeroNode graph) [0 .. getNumNodes graph - 1] optimal_graph)"

section \<open>Maximum flow and negative cycles\<close>

subsection \<open>Edmonds-Karp\<close>

text \<open>
  Modelled from the spec: \<^verbatim>\<open>MaximumFlowAlgorithms::EdmondsKarp\<close> (only its declaration is
  among the sources). Section 4.4 of the specification: build the residual graph; then
  repeat a breadth-first search from the source over the edges of positive capacity, which
  records a parent for every node it discovers; stop when the sink is not reached;
  otherwise reconstruct the path with \<^verbatim>\<open>RetrievePath\<close>, compute its bottleneck with
  \<^verbatim>\<open>GetResidualCapacity\<close>, augment with \<^verbatim>\<open>SendFlowInPath\<close> and add the bottleneck to the
  flow. The search visits the adjacency lists in their order, with a queue.
\<close>

definition bfsVisit :: "int \<Rightarrow> Edge \<Rightarrow> int list \<times> int list \<times> int list
    \<Rightarrow> int list \<times> int list \<times> int list" where
  "bfsVisit u e st =
     (case st of (queue, visited, parent) \<Rightarrow>
        if 0 < getCapacity e \<and> getSink e \<notin> set visited
        then (queue @ [getSink e], visited @ [getSink e], parent[nat (getSink e) := u])
        else st)"

lemma bfsVisit_step:
  "bfsVisit u e (queue, visited, parent) =
     (if 0 < getCapacity e \<and> getSink e \<notin> set visited
      then (queue @ [getSink e], visited @ [getSink e], parent[nat (getSink e) := u])
      else (queue, visited, parent))"
  by (simp add: bfsVisit_def)

lemma bfsVisit_fold:
  "fold (bfsVisit u) es (queue, visited, parent) = (queue', visited', parent') \<Longrightarrow>
   set visited' \<subseteq> set visited \<union> getSink ` set es \<and>
   ((set visited' = set visited \<and> queue' = queue) \<or> set visited \<subset> set visited')"
proof (induction es arbitrary: queue visited parent)
  case Nil
  then show ?case by simp
next
  case (Cons e es)
  show ?case
  proof (cases "0 < getCapacity e \<and> getSink e \<notin> set visited")
    case True
    then have "bfsVisit u e (queue, visited, parent)
        = (queue @ [getSink e], visited @ [getSink e], parent[nat (getSink e) := u])"
      by (simp add: bfsVisit_step)
    then have "fold (bfsVisit u) es
        (queue @ [getSink e], visited @ [getSink e], parent[nat (getSink e) := u])
        = (queue', visited', parent')"
      using Cons.prems by simp
    from Cons.IH [OF this] True show ?thesis by auto
  next
    case False
    then have "bfsVisit u e (queue, visited, parent) = (queue, visited, parent)"
      by (auto simp: bfsVisit_step)
    then have "fold (bfsVisit u) es (queue, visited, parent) = (queue', visited', parent')"
      using Cons.prems by simp
    from Cons.IH [OF this] show ?thesis by auto
  qed
qed

lemma getNodeAdjList_subset:
  assumes "getNodeAdjList rg u = Inr adj"
  shows "set adj \<subseteq> set (allEdges rg)"
proof -
  from assms have "map_of (getGraph rg) u = Some adj"
    by (simp add: getNodeAdjList_def split: option.splits)
  then have "(u, adj) \<in> set (getGraph rg)" by (rule map_of_SomeD)
  then show ?thesis by (auto simp: allEdges_def)
qed

text \<open>Modelled from the spec: the loop of the breadth-first search. It takes the first
  node of the queue and visits its adjacency list; it ends when the queue is empty.\<close>

function bfsLoop :: "Graph \<Rightarrow> int list \<Rightarrow> int list \<Rightarrow> int list \<Rightarrow> error + int list \<times> int list"
  where
  "bfsLoop rg queue visited parent =
     (case queue of
        [] \<Rightarrow> Inr (visited, parent)
      | u # rest \<Rightarrow>
          (case getNodeAdjList rg u of
             Inl e \<Rightarrow> Inl e
           | Inr adj \<Rightarrow>
               (case fold (bfsVisit u) adj (rest, visited, parent) of
                  (queue', visited', parent') \<Rightarrow> bfsLoop rg queue' visited' parent')))"
  by pat_completeness auto
termination
proof (relation "measures [\<lambda>(rg, queue, visited, parent).
      card (getSink ` set (allEdges rg) - set visited),
    \<lambda>(rg, queue, visited, parent). length queue]")
  show "wf (measures [\<lambda>(rg, queue, visited, parent).
      card (getSink ` set (allEdges rg) - set visited),
    \<lambda>(rg, queue, visited, parent). length queue])"
    by simp
next
  fix rg :: Graph and queue visited parent :: "int list" and u rest adj queue' y visited' parent'
  assume q: "queue = u # rest" and a: "getNodeAdjList rg u = Inr adj"
    and x: "(queue', y) = fold (bfsVisit u) adj (rest, visited, parent)"
    and y: "(visited', parent') = y"
  from x y have f': "fold (bfsVisit u) adj (rest, visited, parent) = (queue', visited', parent')"
    by simp
  let ?U = "getSink ` set (allEdges rg)"
  from bfsVisit_fold [OF f'] have sub: "set visited' \<subseteq> set visited \<union> getSink ` set adj"
    and alt: "(set visited' = set visited \<and> queue' = rest) \<or> set visited \<subset> set visited'"
    by simp_all
  have "(card (?U - set visited') < card (?U - set visited))
      \<or> (card (?U - set visited') = card (?U - set visited) \<and> length queue' < length queue)"
  proof (rule disjE [OF alt])
    assume "set visited' = set visited \<and> queue' = rest"
    then show ?thesis using q by simp
  next
    assume st: "set visited \<subset> set visited'"
    have "set visited' \<subseteq> set visited \<union> ?U"
      using sub getNodeAdjList_subset [OF a] by auto
    with st have "?U - set visited' \<subset> ?U - set visited" by auto
    then have "card (?U - set visited') < card (?U - set visited)"
      by (intro psubset_card_mono) simp_all
    then show ?thesis by simp
  qed
  then show "((rg, queue', visited', parent'), (rg, queue, visited, parent))
      \<in> measures [\<lambda>(rg, queue, visited, parent).
            card (getSink ` set (allEdges rg) - set visited),
          \<lambda>(rg, queue, visited, parent). length queue]"
    by auto
qed

declare bfsLoop.simps [simp del]

text \<open>Modelled from the spec: the breadth-first search from \<open>source\<close>; it returns the nodes
  reached and the parent vector (\<open>-1\<close> for a node without parent).\<close>

definition bfs :: "Graph \<Rightarrow> int \<Rightarrow> error + int list \<times> int list" where
  "bfs rg source = bfsLoop rg [source] [source] (replicate (nat (getNumNodes rg)) (- 1))"

text \<open>Modelled from the spec: the augmentation loop of Edmonds-Karp. It is a partial
  function: \<open>None\<close> stands for a run that does not end.\<close>

partial_function (option) EdmondsKarpLoop ::
    "Graph \<Rightarrow> int \<Rightarrow> int \<Rightarrow> int \<Rightarrow> (error + Graph \<times> int) option" where
  "EdmondsKarpLoop rg source sink max_flow =
     (case bfs rg source of
        Inl e \<Rightarrow> Some (Inl e)
      | Inr (visited, parent) \<Rightarrow>
          if sink \<notin> set visited then Some (Inr (rg, max_flow))
          else
            (case RetrievePath parent sink of
               Inl e \<Rightarrow> Some (Inl e)
             | Inr path \<Rightarrow>
                 (case GetResidualCapacity rg path of
                    Inl e \<Rightarrow> Some (Inl e)
                  | Inr flow \<Rightarrow>
                      (case SendFlowInPath rg path flow of
                         Inl e \<Rightarrow> Some (Inl e)
                       | Inr rg' \<Rightarrow> EdmondsKarpLoop rg' source sink (max_flow + flow)))))"

text \<open>Modelled from the spec: \<^verbatim>\<open>EdmondsKarp\<close>, which returns the residual graph and the
  maximum flow.\<close>

definition EdmondsKarp :: "Graph \<Rightarrow> int \<Rightarrow> int \<Rightarrow> (error + Graph \<times> int) option" where
  "EdmondsKarp graph source sink =
     (case GetResidualGraph graph of
        Inl e \<Rightarrow> Some (Inl e)
      | Inr rg \<Rightarrow> EdmondsKarpLoop rg source sink 0)"

subsection \<open>Bellman-Ford\<close>

text \<open>
  Modelled from the spec: \<^verbatim>\<open>GraphBaseAlgorithms::BellmanFord\<close> (not among the sources).
  Section 4.5 of the specification: relax all edges for \<open>|V| - 1\<close> rounds from the source (a
  node without a distance never relaxes); if an edge can still be relaxed afterwards there
  is a negative cycle, and it is the result of \<^verbatim>\<open>RetrievePath\<close> on the parent vector from
  the node whose distance would improve. The model returns the flag
  \<^verbatim>\<open>hasNegativeCycle\<close> and the cycle; the distances are not used by the callers.
\<close>

definition improves :: "(int \<rightharpoonup> int) \<Rightarrow> int \<times> Edge \<Rightarrow> bool" where
  "improves dist p =
     (case dist (fst p) of
        None \<Rightarrow> False
      | Some du \<Rightarrow>
          (case dist (getSink (snd p)) of
             None \<Rightarrow> True
           | Some dv \<Rightarrow> du + getWeight (snd p) < dv))"

text \<open>Modelled from the spec: the relaxation of one edge.\<close>

definition relaxEdge :: "int \<times> Edge \<Rightarrow> (int \<rightharpoonup> int) \<times> int list \<Rightarrow> (int \<rightharpoonup> int) \<times> int list"
  where
  "relaxEdge p st =
     (case st of (dist, parent) \<Rightarrow>
        (case dist (fst p) of
           None \<Rightarrow> st
         | Some du \<Rightarrow>
             if improves dist p
             then (dist(getSink (snd p) \<mapsto> du + getWeight (snd p)),
                   parent[nat (getSink (snd p)) := fst p])
             else st))"

text \<open>Modelled from the spec: \<^verbatim>\<open>BellmanFord\<close>, \<open>|V| - 1\<close> rounds of relaxation of all edges in
  the order of \<open>edgeList\<close>, then the search for an edge that still improves.\<close>

definition BellmanFord :: "Graph \<Rightarrow> int \<Rightarrow> error + bool \<times> int list" where
  "BellmanFord rg source =
     (case ((fold relaxEdge (edgeList rg)) ^^ (nat (getNumNodes rg) - 1))
             (Map.empty(source \<mapsto> 0), replicate (nat (getNumNodes rg)) (- 1)) of
        (dist, parent) \<Rightarrow>
          (case find (improves dist) (edgeList rg) of
             None \<Rightarrow> Inr (False, [])
           | Some p \<Rightarrow>
               (case RetrievePath parent (getSink (snd p)) of
                  Inl e \<Rightarrow> Inl e
                | Inr cycle \<Rightarrow> Inr (True, cycle))))"

subsection \<open>CycleCancelling\<close>

text \<open>The loop of \<^verbatim>\<open>CycleCancelling\<close>: while Bellman-Ford reports a negative cycle, send
  its residual capacity along it. No bound on the number of iterations is known, so the
  loop is a partial function: \<open>None\<close> stands for a run that does not end.\<close>

partial_function (option) CancelLoop :: "Graph \<Rightarrow> int \<Rightarrow> (error + Graph) option" where
  "CancelLoop residual_graph source =
     (case BellmanFord residual_graph source of
        Inl e \<Rightarrow> Some (Inl e)
      | Inr (hasNegativeCycle, negative_cycle) \<Rightarrow>
          if \<not> hasNegativeCycle then Some (Inr residual_graph)
          else
            (case GetResidualCapacity residual_graph negative_cycle of
               Inl e \<Rightarrow> Some (Inl e)
             | Inr residual_capacity \<Rightarrow>
                 (case SendFlowInPath residual_graph negative_cycle residual_capacity of
                    Inl e \<Rightarrow> Some (Inl e)
                  | Inr g' \<Rightarrow> CancelLoop g' source)))"

text \<open>The two nested loops that compute \<^verbatim>\<open>minimum_cost\<close>, an \<^verbatim>\<open>int\<close>: the negation, the
  product and the sum of \<^verbatim>\<open>minimum_cost += -edge.getWeight() * edge.getCapacity()\<close> are
  \<^verbatim>\<open>int\<close> operations.\<close>

definition addEdgeCost :: "Edge \<Rightarrow> int \<Rightarrow> int" where
  "addEdgeCost edge minimum_cost =
     (if getWeight edge < 0
      then int32 (minimum_cost + int32 (int32 (- getWeight edge) * getCapacity edge))
      else minimum_cost)"

definition MinimumCost :: "Graph \<Rightarrow> error + int" where
  "MinimumCost residual_graph =
     foldE (\<lambda>minimum_cost u.
              bindE (getNodeAdjList residual_graph u) (\<lambda>adj.
                Inr (fold addEdgeCost adj minimum_cost)))
       [0 .. getNumNodes residual_graph - 1] 0"

definition CycleCancelling :: "Graph \<Rightarrow> (error + Graph \<times> int) option" where
  "CycleCancelling graph =
     (let source = 0; sink = getNumNodes graph - 1 in
      case EdmondsKarp graph source sink of
        None \<Rightarrow> None
      | Some (Inl e) \<Rightarrow> Some (Inl e)
      | Some (Inr (residual_graph, max_flow)) \<Rightarrow>
          (case CancelLoop residual_graph source of
             None \<Rightarrow> None
           | Some (Inl e) \<Rightarrow> Some (Inl e)
           | Some (Inr final_graph) \<Rightarrow>
               Some (bindE (MinimumCost final_graph) (\<lambda>minimum_cost.
                 Inr (final_graph, minimum_cost)))))"

declare EdmondsKarpLoop.simps [code]
declare CancelLoop.simps [code]

section \<open>The loops as recursions over the path\<close>

text \<open>For a non-empty path the index loops of \<^verbatim>\<open>SendFlowInPath\<close> and
  \<^verbatim>\<open>GetResidualCapacity\<close> visit the consecutive pairs of the path from left to right.\<close>

fun SendFlowPairs :: "Graph \<Rightarrow> int list \<Rightarrow> int \<Rightarrow> error + Graph" where
  "SendFlowPairs rg (a # b # rest) flow =
     (case SendFlowInEdge rg a b flow of
        Inl e \<Rightarrow> Inl e
      | Inr g' \<Rightarrow> SendFlowPairs g' (b # rest) flow)"
| "SendFlowPairs rg [a] flow = Inr rg"
| "SendFlowPairs rg [] flow = Inr rg"

lemma size_minus_one_nonempty: "xs \<noteq> [] \<Longrightarrow> size_minus_one xs = int (length xs) - 1"
  by (simp add: size_minus_one_def)

lemma vec_at_nth: "i < length xs \<Longrightarrow> vec_at xs (int i) = Inr (xs ! i)"
  by (simp add: vec_at_def)

lemma vec_at_Suc_nth: "Suc i < length xs \<Longrightarrow> vec_at xs (int i + 1) = Inr (xs ! Suc i)"
  using vec_at_nth [of "Suc i" xs] by (simp add: add.commute)

lemma drop_two: "Suc u < length xs \<Longrightarrow> drop u xs = xs ! u # xs ! Suc u # drop (Suc (Suc u)) xs"
  by (simp add: Cons_nth_drop_Suc Suc_lessD)

lemma drop_last_one: "u < length xs \<Longrightarrow> \<not> Suc u < length xs \<Longrightarrow> drop u xs = [xs ! u]"
  by (metis Cons_nth_drop_Suc drop_all not_less)

lemma SendFlowLoop_pairs:
  "u < length path \<Longrightarrow> SendFlowLoop rg path flow u = SendFlowPairs rg (drop u path) flow"
proof (induction rg path flow u rule: SendFlowLoop.induct)
  case (1 rg path flow u)
  then have ne: "path \<noteq> []" by auto
  show ?case
  proof (cases "Suc u < length path")
    case True
    then have c: "int u < size_minus_one path"
      by (simp add: size_minus_one_nonempty [OF ne])
    have d: "drop u path = path ! u # path ! Suc u # drop (Suc (Suc u)) path"
      by (rule drop_two [OF True])
    have d': "drop (Suc u) path = path ! Suc u # drop (Suc (Suc u)) path"
      using True by (simp add: Cons_nth_drop_Suc)
    show ?thesis
    proof (cases "SendFlowInEdge rg (path ! u) (path ! Suc u) flow")
      case (Inl e)
      then show ?thesis
        using c True "1.prems" 
        by (simp add: SendFlowLoop.simps [of rg path flow u] vec_at_nth vec_at_Suc_nth d)
    next
      case (Inr g')
      have "SendFlowLoop g' path flow (Suc u) = SendFlowPairs g' (drop (Suc u) path) flow"
        using "1.IH" [OF c vec_at_nth [OF "1.prems"] vec_at_Suc_nth [OF True] Inr True] .
      then show ?thesis
        using c True "1.prems" Inr
        by (simp add: SendFlowLoop.simps [of rg path flow u] vec_at_nth vec_at_Suc_nth d d')
    qed
  next
    case False
    then have c: "\<not> int u < size_minus_one path"
      by (simp add: size_minus_one_nonempty [OF ne])
    show ?thesis
      using c by (simp add: SendFlowLoop.simps [of rg path flow u] drop_last_one [OF "1.prems" False])
  qed
qed

definition pairs :: "'a list \<Rightarrow> ('a \<times> 'a) list" where
  "pairs xs = zip xs (tl xs)"

fun MinCapacityPairs :: "Graph \<Rightarrow> int list \<Rightarrow> int \<Rightarrow> error + int" where
  "MinCapacityPairs rg (a # b # rest) path_flow =
     (case getEdge rg a b of
        Inl e \<Rightarrow> Inl e
      | Inr edge \<Rightarrow> MinCapacityPairs rg (b # rest) (min path_flow (getCapacity edge)))"
| "MinCapacityPairs rg [a] path_flow = Inr path_flow"
| "MinCapacityPairs rg [] path_flow = Inr path_flow"

lemma GetResidualCapacityLoop_pairs:
  "u < length path \<Longrightarrow>
   GetResidualCapacityLoop rg path pf u = MinCapacityPairs rg (drop u path) pf"
proof (induction rg path pf u rule: GetResidualCapacityLoop.induct)
  case (1 rg path pf u)
  then have ne: "path \<noteq> []" by auto
  show ?case
  proof (cases "Suc u < length path")
    case True
    then have c: "int u < size_minus_one path"
      by (simp add: size_minus_one_nonempty [OF ne])
    have d: "drop u path = path ! u # path ! Suc u # drop (Suc (Suc u)) path"
      by (rule drop_two [OF True])
    have d': "drop (Suc u) path = path ! Suc u # drop (Suc (Suc u)) path"
      using True by (simp add: Cons_nth_drop_Suc)
    show ?thesis
    proof (cases "getEdge rg (path ! u) (path ! Suc u)")
      case (Inl e)
      then show ?thesis
        using c True "1.prems"
        by (simp add: GetResidualCapacityLoop.simps [of rg path pf u] vec_at_nth vec_at_Suc_nth d)
    next
      case (Inr edge)
      have "GetResidualCapacityLoop rg path (min pf (getCapacity edge)) (Suc u)
          = MinCapacityPairs rg (drop (Suc u) path) (min pf (getCapacity edge))"
        using "1.IH" [OF c vec_at_nth [OF "1.prems"] vec_at_Suc_nth [OF True] Inr True] .
      then show ?thesis
        using c True "1.prems" Inr
        by (simp add: GetResidualCapacityLoop.simps [of rg path pf u] vec_at_nth vec_at_Suc_nth d d')
    qed
  next
    case False
    then have c: "\<not> int u < size_minus_one path"
      by (simp add: size_minus_one_nonempty [OF ne])
    show ?thesis
      using c
      by (simp add: GetResidualCapacityLoop.simps [of rg path pf u] drop_last_one [OF "1.prems" False])
  qed
qed

text \<open>The capacity of the edge \<open>a \<rightarrow> b\<close>, read through \<^verbatim>\<open>getEdge\<close>.\<close>

definition capacityOf :: "Graph \<Rightarrow> int \<times> int \<Rightarrow> int" where
  "capacityOf rg p = (case getEdge rg (fst p) (snd p) of Inl e \<Rightarrow> 0 | Inr edge \<Rightarrow> getCapacity edge)"

definition isEdge :: "Graph \<Rightarrow> int \<times> int \<Rightarrow> bool" where
  "isEdge rg p = (case getEdge rg (fst p) (snd p) of Inl e \<Rightarrow> False | Inr edge \<Rightarrow> True)"

lemma MinCapacityPairs_Min:
  "\<forall>p \<in> set (pairs path). isEdge rg p \<Longrightarrow>
   MinCapacityPairs rg path pf = Inr (Min (insert pf (capacityOf rg ` set (pairs path))))"
proof (induction rg path pf rule: MinCapacityPairs.induct)
  case (1 rg a b rest pf)
  from "1.prems" obtain edge where e: "getEdge rg a b = Inr edge"
    by (auto simp: pairs_def isEdge_def split: sum.splits)
  have r: "\<forall>p \<in> set (pairs (b # rest)). isEdge rg p"
    using "1.prems" by (simp add: pairs_def)
  have c: "capacityOf rg (a, b) = getCapacity edge"
    by (simp add: capacityOf_def e)
  have p: "pairs (a # b # rest) = (a, b) # pairs (b # rest)"
    by (simp add: pairs_def)
  have "Min (insert (min pf (getCapacity edge)) (capacityOf rg ` set (pairs (b # rest))))
      = Min (insert pf (insert (getCapacity edge) (capacityOf rg ` set (pairs (b # rest)))))"
    (is "Min (insert _ ?S) = _")
  proof -
    have f: "finite ?S" by simp
    show ?thesis
      by (cases "?S = {}") (simp_all add: Min_insert f min.assoc)
  qed
  then show ?case
    using "1.IH" [OF e r] by (simp add: e p c)
qed (simp_all add: pairs_def)

text \<open>
  Claim C9. \<^verbatim>\<open>GetResidualCapacity\<close> returns 0 for a path with fewer than two nodes; for a
  longer path whose consecutive pairs are all edges of the residual graph (with capacities
  that are C++ \<^verbatim>\<open>int\<close> values, at most \<^verbatim>\<open>INT_MAX\<close>) it returns the minimum of the
  capacities of the consecutive pairs.
\<close>

theorem GetResidualCapacity_minimum:
  "(length path < 2 \<longrightarrow> GetResidualCapacity rg path = Inr 0) \<and>
   (2 \<le> length path \<and> (\<forall>p \<in> set (pairs path). isEdge rg p \<and> capacityOf rg p \<le> INT_MAX)
      \<longrightarrow> GetResidualCapacity rg path = Inr (Min (capacityOf rg ` set (pairs path))))"
proof (intro conjI impI)
  assume "length path < 2"
  then show "GetResidualCapacity rg path = Inr 0"
    by (simp add: GetResidualCapacity_def)
next
  assume h: "2 \<le> length path \<and> (\<forall>p \<in> set (pairs path). isEdge rg p \<and> capacityOf rg p \<le> INT_MAX)"
  then obtain a b rest where path: "path = a # b # rest"
    by (cases path; cases "tl path") auto
  let ?S = "capacityOf rg ` set (pairs path)"
  have ne: "?S \<noteq> {}" by (simp add: path pairs_def)
  have le: "Min ?S \<le> INT_MAX"
  proof -
    have "capacityOf rg (a, b) \<in> ?S" by (simp add: path pairs_def)
    then have "Min ?S \<le> capacityOf rg (a, b)" by (intro Min_le) simp_all
    moreover have "capacityOf rg (a, b) \<le> INT_MAX"
      using h by (simp add: path pairs_def)
    ultimately show ?thesis by simp
  qed
  have "GetResidualCapacity rg path = MinCapacityPairs rg path INT_MAX"
    using GetResidualCapacityLoop_pairs [of 0 path rg INT_MAX]
    by (simp add: GetResidualCapacity_def path)
  also have "\<dots> = Inr (Min (insert INT_MAX ?S))"
    using h by (intro MinCapacityPairs_Min) simp
  also have "Min (insert INT_MAX ?S) = Min ?S"
  proof -
    have "Min (insert INT_MAX ?S) = min INT_MAX (Min ?S)"
      using ne by (intro Min_insert) simp_all
    then show ?thesis using le by (simp add: min_def)
  qed
  finally show "GetResidualCapacity rg path = Inr (Min ?S)" .
qed

text \<open>A path \<open>0 \<rightarrow> 1 \<rightarrow> 2\<close> with capacities 5 and 3.\<close>

definition path_graph :: Graph where
  "path_graph = Graph 3 [(0, [Edge 0 1 5 1]), (1, [Edge 1 2 3 1]), (2, [])] []"

lemma path_graph_edges:
  "getEdge path_graph 0 1 = Inr (Edge 0 1 5 1)" "getEdge path_graph 1 2 = Inr (Edge 1 2 3 1)"
  by (simp_all add: path_graph_def getEdge_def nodeExists_def lookupEdge_def findEdge_def)

theorem GetResidualCapacity_minimum_witness:
  "GetResidualCapacity path_graph [0, 1, 2] = Inr 3"
proof -
  have h: "2 \<le> length [0, 1, 2 :: int]
      \<and> (\<forall>p \<in> set (pairs [0, 1, 2]). isEdge path_graph p \<and> capacityOf path_graph p \<le> INT_MAX)"
    by (simp add: pairs_def isEdge_def capacityOf_def path_graph_edges INT_MAX_def)
  have m: "Min (capacityOf path_graph ` set (pairs [0, 1, 2])) = 3"
    by (simp add: pairs_def capacityOf_def path_graph_edges)
  from GetResidualCapacity_minimum [of "[0, 1, 2]" path_graph] h m show ?thesis
    by simp
qed

section \<open>Paths without an edge\<close>

text \<open>
  Claim C10. \<^verbatim>\<open>SendFlowInPath\<close> needs a path of at least one node. For the empty path the
  loop bound \<^verbatim>\<open>path->size() - 1\<close> wraps around to \<^verbatim>\<open>SIZE_MAX\<close>, the loop is entered and
  its first access \<^verbatim>\<open>path->at(0)\<close> is out of range on the empty vector (the exception
  \<^verbatim>\<open>std::out_of_range\<close>) instead of the call returning without effect. For a path of one
  node the loop runs zero times and the graph is returned unchanged.
  \<^verbatim>\<open>GetResidualCapacity\<close> guards both cases and returns 0.
\<close>

theorem SendFlowInPath_short_path:
  "size_minus_one ([] :: int list) = 2 ^ 64 - 1
   \<and> 0 < size_minus_one ([] :: int list)
   \<and> SendFlowInPath residual_graph [] flow = Inl OutOfRange
   \<and> SendFlowInPath residual_graph [a] flow = Inr residual_graph
   \<and> GetResidualCapacity residual_graph [] = Inr 0
   \<and> GetResidualCapacity residual_graph [a] = Inr 0"
  by (simp add: size_minus_one_def SIZE_MAX_def SendFlowInPath_def vec_at_def
      GetResidualCapacity_def SendFlowLoop.simps [of _ "[]"] SendFlowLoop.simps [of _ "[a]"])

theorem SendFlowInPath_short_path_witness:
  "SendFlowInPath path_graph [] 1 = Inl OutOfRange
   \<and> SendFlowInPath path_graph [0] 1 = Inr path_graph
   \<and> GetResidualCapacity path_graph [] = Inr 0
   \<and> GetResidualCapacity path_graph [0] = Inr 0"
  using SendFlowInPath_short_path [of path_graph 1 0] by simp

section \<open>Path reconstruction\<close>

lemma pairs_Cons2: "pairs (a # b # xs) = (a, b) # pairs (b # xs)"
  by (simp add: pairs_def)

lemma pairs_single: "pairs [a] = []"
  by (simp add: pairs_def)

lemma pairs_Nil: "pairs [] = []"
  by (simp add: pairs_def)

lemma pairs_snoc: "xs \<noteq> [] \<Longrightarrow> pairs (xs @ [x]) = pairs xs @ [(last xs, x)]"
proof (induction xs)
  case Nil
  then show ?case by simp
next
  case (Cons a xs)
  show ?case
  proof (cases xs)
    case Nil
    then show ?thesis by (simp add: pairs_def)
  next
    case (Cons b ys)
    then show ?thesis
      using Cons.IH by (simp add: pairs_Cons2)
  qed
qed

lemma set_pairs_rev: "set (pairs (rev xs)) = (\<lambda>(x, y). (y, x)) ` set (pairs xs)"
proof (induction xs)
  case Nil
  then show ?case by (simp add: pairs_def)
next
  case (Cons a xs)
  show ?case
  proof (cases xs)
    case Nil
    then show ?thesis by (simp add: pairs_def)
  next
    case (Cons b ys)
    have "rev xs \<noteq> []" using Cons by simp
    then have "pairs (rev xs @ [a]) = pairs (rev xs) @ [(last (rev xs), a)]"
      by (rule pairs_snoc)
    then have "pairs (rev (a # xs)) = pairs (rev xs) @ [(last (rev xs), a)]"
      by simp
    moreover have "last (rev xs) = b"
      using Cons by simp
    ultimately show ?thesis
      using Cons.IH Cons by (simp add: pairs_Cons2)
  qed
qed

text \<open>The invariant of the loop of \<^verbatim>\<open>RetrievePath\<close>: the collected nodes are distinct,
  each is followed by its parent, and \<open>tmp\<close> is the parent of the last one.\<close>

lemma RetrievePathLoop_invariant:
  "RetrievePathLoop parent path tmp = Inr p \<Longrightarrow> path \<noteq> [] \<Longrightarrow> distinct path \<Longrightarrow>
   \<forall>(x, y) \<in> set (pairs path). vec_at parent x = Inr y \<Longrightarrow>
   vec_at parent (last path) = Inr tmp \<Longrightarrow>
   p \<noteq> [] \<and> hd p = hd path \<and> distinct p \<and> (\<forall>(x, y) \<in> set (pairs p). vec_at parent x = Inr y)
   \<and> (\<exists>t. vec_at parent (last p) = Inr t \<and> (t = - 1 \<or> t \<in> set p))"
proof (induction parent path tmp rule: RetrievePathLoop.induct)
  case (1 parent path tmp)
  show ?case
  proof (cases "tmp \<noteq> - 1 \<and> tmp \<notin> set path")
    case True
    with "1.prems"(1) obtain tmp' where v: "vec_at parent tmp = Inr tmp'"
      and r: "RetrievePathLoop parent (path @ [tmp]) tmp' = Inr p"
      by (auto simp: RetrievePathLoop.simps [of parent path tmp] split: sum.splits)
    have a: "path @ [tmp] \<noteq> []" by simp
    have b: "distinct (path @ [tmp])" using True "1.prems"(3) by simp
    have c: "\<forall>(x, y) \<in> set (pairs (path @ [tmp])). vec_at parent x = Inr y"
      using "1.prems"(2,4,5) by (simp add: pairs_snoc)
    have d: "vec_at parent (last (path @ [tmp])) = Inr tmp'" using v by simp
    show ?thesis
      using "1.IH" [OF True v r a b c d] "1.prems"(2) by simp
  next
    case False
    with "1.prems"(1) have "p = path"
      by (auto simp: RetrievePathLoop.simps [of parent path tmp])
    then show ?thesis
      using False "1.prems" by auto
  qed
qed

lemma RetrievePath_cycle_example: "RetrievePath [1, 2, 0] 0 = Inr [2, 1, 0]"
  by (simp add: RetrievePath_def vec_at_def RetrievePathLoop.simps [of _ "[0]"]
      RetrievePathLoop.simps [of _ "[0, 1]"] RetrievePathLoop.simps [of _ "[0, 1, 2]"])

lemma RetrievePathLoop_returns:
  "\<forall>x \<in> set parent. - 1 \<le> x \<and> x < int (length parent) \<Longrightarrow>
   - 1 \<le> tmp \<and> tmp < int (length parent) \<Longrightarrow>
   \<exists>p. RetrievePathLoop parent path tmp = Inr p"
proof (induction parent path tmp rule: RetrievePathLoop.induct)
  case (1 parent path tmp)
  show ?case
  proof (cases "tmp \<noteq> - 1 \<and> tmp \<notin> set path")
    case True
    then have r: "0 \<le> tmp" "tmp < int (length parent)" using "1.prems"(2) by simp_all
    then have v: "vec_at parent tmp = Inr (parent ! nat tmp)" by (simp add: vec_at_def)
    have "parent ! nat tmp \<in> set parent" using r by simp
    then have "- 1 \<le> parent ! nat tmp \<and> parent ! nat tmp < int (length parent)"
      using "1.prems"(1) by blast
    from "1.IH" [OF True v "1.prems"(1) this] show ?thesis
      using True v by (simp add: RetrievePathLoop.simps [of parent path tmp])
  next
    case False
    then show ?thesis by (auto simp: RetrievePathLoop.simps [of parent path tmp])
  qed
qed

lemma RetrievePath_returns:
  assumes "\<forall>x \<in> set parent. - 1 \<le> x \<and> x < int (length parent)"
    and "0 \<le> start_node" "start_node < int (length parent)"
  shows "\<exists>r. RetrievePath parent start_node = Inr r"
proof -
  have v: "vec_at parent start_node = Inr (parent ! nat start_node)"
    using assms(2,3) by (simp add: vec_at_def)
  have "parent ! nat start_node \<in> set parent" using assms(2,3) by simp
  then have "- 1 \<le> parent ! nat start_node \<and> parent ! nat start_node < int (length parent)"
    using assms(1) by blast
  from RetrievePathLoop_returns [OF assms(1) this, of "[start_node]"] show ?thesis
    by (auto simp: RetrievePath_def v)
qed

lemma RetrievePath_chain:
  assumes "RetrievePath parent start_node = Inr r"
  shows "r \<noteq> [] \<and> last r = start_node \<and> distinct r
    \<and> (\<forall>(x, y) \<in> set (pairs r). vec_at parent y = Inr x)
    \<and> (\<exists>t. vec_at parent (hd r) = Inr t \<and> (t = - 1 \<or> t \<in> set r))
    \<and> (2 \<le> length r \<longrightarrow> hd r \<noteq> last r)"
proof -
  from assms obtain tmp p where v: "vec_at parent start_node = Inr tmp"
    and l: "RetrievePathLoop parent [start_node] tmp = Inr p" and r: "r = rev p"
    by (auto simp: RetrievePath_def split: sum.splits)
  have inv: "p \<noteq> [] \<and> hd p = hd [start_node] \<and> distinct p
      \<and> (\<forall>(x, y) \<in> set (pairs p). vec_at parent x = Inr y)
      \<and> (\<exists>t. vec_at parent (last p) = Inr t \<and> (t = - 1 \<or> t \<in> set p))"
    using v by (intro RetrievePathLoop_invariant [OF l]) (simp_all add: pairs_def)
  then have ne: "p \<noteq> []" and h: "hd p = start_node" and d: "distinct p" by simp_all
  have 1: "r \<noteq> []" using ne r by simp
  have 2: "last r = start_node" using ne h r by (simp add: last_rev)
  have 3: "distinct r" using d r by simp
  have 4: "\<forall>(x, y) \<in> set (pairs r). vec_at parent y = Inr x"
    using inv by (auto simp: r set_pairs_rev)
  have 5: "\<exists>t. vec_at parent (hd r) = Inr t \<and> (t = - 1 \<or> t \<in> set r)"
    using inv ne by (simp add: r hd_rev)
  have 6: "2 \<le> length r \<longrightarrow> hd r \<noteq> last r"
  proof
    assume "2 \<le> length r"
    then obtain a b rest where "r = a # b # rest"
      by (cases r; cases "tl r") auto
    then show "hd r \<noteq> last r" using 3 by auto
  qed
  from 1 2 3 4 5 6 show ?thesis by blast
qed

text \<open>
  Claim C3, as the code has it. \<^verbatim>\<open>RetrievePath\<close> collects \<open>start\<close>, \<open>parent[start]\<close>,
  \<open>parent[parent[start]]\<close>, ... until the sentinel \<open>-1\<close> or a node already collected is
  reached, and returns the reversed sequence: it ends with \<open>start\<close>, each consecutive pair
  \<open>(x, y)\<close> of it satisfies \<open>parent[y] = x\<close>, and the parent of its first node is \<open>-1\<close> or a
  node of the sequence. The node at which the walk stops is not collected again: the
  nodes of the returned sequence are pairwise distinct, so a sequence of two or more nodes
  never repeats its first node at the end. The walk returns whenever \<open>start\<close> is an index of
  the parent vector and every entry of the vector is \<open>-1\<close> or an index.
\<close>

theorem RetrievePath_open_chain:
  "((\<forall>x \<in> set parent. - 1 \<le> x \<and> x < int (length parent))
      \<and> 0 \<le> start_node \<and> start_node < int (length parent)
     \<longrightarrow> (\<exists>r. RetrievePath parent start_node = Inr r)) \<and>
   (RetrievePath parent start_node = Inr r \<longrightarrow>
      r \<noteq> [] \<and> last r = start_node \<and> distinct r
      \<and> (\<forall>(x, y) \<in> set (pairs r). vec_at parent y = Inr x)
      \<and> (\<exists>t. vec_at parent (hd r) = Inr t \<and> (t = - 1 \<or> t \<in> set r))
      \<and> (2 \<le> length r \<longrightarrow> hd r \<noteq> last r))"
  using RetrievePath_returns [of parent start_node] RetrievePath_chain [of parent start_node r]
  by blast

theorem RetrievePath_open_chain_witness:
  "RetrievePath [1, 2, 0] 0 = Inr [2, 1, 0] \<and> distinct [2, 1, 0 :: int]
   \<and> hd [2, 1, 0 :: int] \<noteq> last [2, 1, 0 :: int]"
  using RetrievePath_open_chain [of "[1, 2, 0]" 0 "[2, 1, 0]"] RetrievePath_cycle_example
  by simp

text \<open>
  Claim C3 as stated fails. On the parent vector \<open>[1, 2, 0]\<close> (the cycle
  \<open>0 \<rightarrow> 2 \<rightarrow> 1 \<rightarrow> 0\<close>) the walk from \<open>0\<close> closes a cycle, and the returned sequence \<open>[2, 1, 0]\<close> does not repeat its first node at
  the end: its consecutive pairs do not cover the edge \<open>0 \<rightarrow> 2\<close> of the cycle.
\<close>

theorem RetrievePath_cycle_not_closed:
  "RetrievePath [1, 2, 0] 0 = Inr [2, 1, 0] \<and> vec_at [1, 2, 0] 2 = Inr 0
   \<and> last [2, 1, 0 :: int] \<noteq> hd [2, 1, 0 :: int]
   \<and> (0, 2) \<notin> set (pairs [2, 1, 0 :: int])"
  using RetrievePath_cycle_example by (simp add: pairs_def vec_at_def)

section \<open>Facts about the graph class\<close>

lemma bindE_Inr_iff: "bindE m f = Inr y \<longleftrightarrow> (\<exists>x. m = Inr x \<and> f x = Inr y)"
  by (cases m) (simp_all add: bindE_def)

lemma bindE_simps [simp]: "bindE (Inl e) f = Inl e" "bindE (Inr x) f = f x"
  by (simp_all add: bindE_def)

lemma map_of_setAdj: "map_of (getGraph (setAdj gr n es)) = (map_of (getGraph gr))(n \<mapsto> es)"
  by (simp add: setAdj_def update_conv')

lemma nodeExists_setAdj: "nodeExists (setAdj gr n es) m \<longleftrightarrow> m = n \<or> nodeExists gr m"
  by (simp add: nodeExists_def map_of_setAdj)

lemma lookupEdge_setAdj:
  "lookupEdge (setAdj gr n es) s t = (if s = n then findEdge es t else lookupEdge gr s t)"
  by (simp add: lookupEdge_def map_of_setAdj)

lemma adjOf_setAdj: "adjOf (setAdj gr n es) m = (if m = n then es else adjOf gr m)"
  by (simp add: adjOf_def map_of_setAdj)

lemma length_AList_update:
  "length (AList.update k v al) = (if map_of al k = None then Suc (length al) else length al)"
  by (induction al) auto

lemma getNumNodes_setAdj:
  "getNumNodes (setAdj gr n es) = (if nodeExists gr n then getNumNodes gr else getNumNodes gr + 1)"
  by (simp add: getNumNodes_def setAdj_def nodeExists_def length_AList_update)

lemma setAdj_fields [simp]:
  "getStartingNumNodes (setAdj gr n es) = getStartingNumNodes gr"
  "getArtificialNodesMap (setAdj gr n es) = getArtificialNodesMap gr"
  by (simp_all add: setAdj_def)

lemma lookupEdge_adjOf: "lookupEdge gr s t = findEdge (adjOf gr s) t"
  by (simp add: lookupEdge_def adjOf_def findEdge_def split: option.splits)

lemma findEdge_Some: "findEdge es t = Some e \<Longrightarrow> getSink e = t \<and> e \<in> set es"
  by (auto simp: findEdge_def find_Some_iff)

lemma findEdge_None_iff: "findEdge es t = None \<longleftrightarrow> t \<notin> getSink ` set es"
  by (auto simp: findEdge_def find_None_iff)

lemma findEdge_map_withCapacity:
  "findEdge (map (\<lambda>e. if getSink e = t then withCapacity c e else e) es) t'
     = (if t' = t then map_option (withCapacity c) (findEdge es t) else findEdge es t')"
  by (induction es) (auto simp: findEdge_def withCapacity_def [abs_def])

lemma findEdge_filter:
  "findEdge (filter (\<lambda>e. getSink e \<noteq> t) es) t' = (if t' = t then None else findEdge es t')"
  by (induction es) (auto simp: findEdge_def)

lemma findEdge_snoc:
  "findEdge (es @ [e]) t
     = (case findEdge es t of None \<Rightarrow> (if getSink e = t then Some e else None) | Some x \<Rightarrow> Some x)"
  by (induction es) (auto simp: findEdge_def)

lemma getEdge_Inr_iff:
  "getEdge gr s t = Inr e \<longleftrightarrow> nodeExists gr s \<and> nodeExists gr t \<and> lookupEdge gr s t = Some e"
  by (auto simp: getEdge_def split: option.splits)

lemma setEdgeCapacity_Inr_iff:
  "setEdgeCapacity gr s t c = Inr g' \<longleftrightarrow>
     nodeExists gr s \<and> nodeExists gr t \<and> lookupEdge gr s t \<noteq> None \<and> 0 \<le> c \<and>
     g' = setAdj gr s (map (\<lambda>e. if getSink e = t then withCapacity c e else e) (adjOf gr s))"
  by (auto simp: setEdgeCapacity_def)

lemma removeEdge_Inr_iff:
  "removeEdge gr s t = Inr g' \<longleftrightarrow>
     nodeExists gr s \<and> nodeExists gr t \<and> lookupEdge gr s t \<noteq> None \<and>
     g' = setAdj gr s (filter (\<lambda>e. getSink e \<noteq> t) (adjOf gr s))"
  by (auto simp: removeEdge_def)

lemma nodeExists_setEdgeCapacity:
  "setEdgeCapacity gr s t c = Inr g' \<Longrightarrow> nodeExists g' n = nodeExists gr n"
  by (auto simp: setEdgeCapacity_Inr_iff nodeExists_setAdj)

lemma lookupEdge_setEdgeCapacity:
  "setEdgeCapacity gr s t c = Inr g' \<Longrightarrow>
   lookupEdge g' s' t' = (if s' = s \<and> t' = t then map_option (withCapacity c) (lookupEdge gr s t)
                          else lookupEdge gr s' t')"
  by (auto simp: setEdgeCapacity_Inr_iff lookupEdge_setAdj findEdge_map_withCapacity
      lookupEdge_adjOf [of gr s])

lemma getNumNodes_setEdgeCapacity:
  "setEdgeCapacity gr s t c = Inr g' \<Longrightarrow> getNumNodes g' = getNumNodes gr"
  by (auto simp: setEdgeCapacity_Inr_iff getNumNodes_setAdj)

lemma nodeExists_removeEdge:
  "removeEdge gr s t = Inr g' \<Longrightarrow> nodeExists g' n = nodeExists gr n"
  by (auto simp: removeEdge_Inr_iff nodeExists_setAdj)

lemma lookupEdge_removeEdge:
  "removeEdge gr s t = Inr g' \<Longrightarrow>
   lookupEdge g' s' t' = (if s' = s \<and> t' = t then None else lookupEdge gr s' t')"
  by (auto simp: removeEdge_Inr_iff lookupEdge_setAdj findEdge_filter lookupEdge_adjOf [of gr s])

lemma getNumNodes_removeEdge:
  "removeEdge gr s t = Inr g' \<Longrightarrow> getNumNodes g' = getNumNodes gr"
  by (auto simp: removeEdge_Inr_iff getNumNodes_setAdj)

lemma nodeExists_ensureNode: "nodeExists (ensureNode gr n) m \<longleftrightarrow> m = n \<or> nodeExists gr m"
  by (auto simp: ensureNode_def nodeExists_setAdj)

lemma lookupEdge_ensureNode: "lookupEdge (ensureNode gr n) s t = lookupEdge gr s t"
  by (auto simp: ensureNode_def lookupEdge_setAdj findEdge_def nodeExists_def)
     (simp add: lookupEdge_def)

lemma adjOf_ensureNode: "adjOf (ensureNode gr n) m = adjOf gr m"
  by (auto simp: ensureNode_def adjOf_setAdj nodeExists_def) (simp add: adjOf_def)

lemma getNumNodes_ensureNode:
  "getNumNodes (ensureNode gr n) = (if nodeExists gr n then getNumNodes gr else getNumNodes gr + 1)"
  by (simp add: ensureNode_def getNumNodes_setAdj)

lemma addEdge_Inr_iff:
  "addEdge gr s t c w = Inr g' \<longleftrightarrow>
     0 \<le> s \<and> 0 \<le> t \<and> s \<le> getNumNodes gr + 1 \<and> t \<le> getNumNodes gr + 1 \<and>
     lookupEdge gr s t = None \<and> 0 \<le> c \<and>
     g' = setAdj (ensureNode (ensureNode gr s) t) s (adjOf gr s @ [Edge s t c w])"
  by (auto simp: addEdge_def Let_def adjOf_ensureNode)

lemma nodeExists_addEdge:
  "addEdge gr s t c w = Inr g' \<Longrightarrow> nodeExists g' n \<longleftrightarrow> n = s \<or> n = t \<or> nodeExists gr n"
  by (auto simp: addEdge_Inr_iff nodeExists_setAdj nodeExists_ensureNode)

lemma lookupEdge_addEdge:
  "addEdge gr s t c w = Inr g' \<Longrightarrow>
   lookupEdge g' s' t' = (if s' = s \<and> t' = t then Some (Edge s t c w) else lookupEdge gr s' t')"
  by (auto simp: addEdge_Inr_iff lookupEdge_setAdj lookupEdge_ensureNode findEdge_snoc
      lookupEdge_adjOf [of gr s] split: option.splits)

lemma getNumNodes_addEdge:
  "addEdge gr s t c w = Inr g' \<Longrightarrow>
   getNumNodes g' = getNumNodes gr + (if nodeExists gr s then 0 else 1)
      + (if nodeExists gr t \<or> t = s then 0 else 1)"
  by (auto simp: addEdge_Inr_iff getNumNodes_setAdj getNumNodes_ensureNode nodeExists_ensureNode)

lemma hasEdge_Inr_iff:
  "hasEdge gr s t = Inr b \<longleftrightarrow> nodeExists gr s \<and> nodeExists gr t \<and> b = (lookupEdge gr s t \<noteq> None)"
  by (auto simp: hasEdge_def)

subsection \<open>Well-formed graphs\<close>

text \<open>
  The invariants of the class \<^verbatim>\<open>Graph\<close> (section 3 of the specification): the node ids are
  \<open>0 .. count - 1\<close>; every edge is stored in the list of its source, ends in an existing
  node and has a capacity \<open>\<ge> 0\<close>; there is at most one edge per ordered pair.
\<close>

definition wf_graph :: "Graph \<Rightarrow> bool" where
  "wf_graph gr \<longleftrightarrow>
     map fst (getGraph gr) = [0 .. getNumNodes gr - 1] \<and>
     (\<forall>(s, es) \<in> set (getGraph gr).
        distinct (map getSink es) \<and>
        (\<forall>e \<in> set es. getSource e = s \<and> 0 \<le> getSink e \<and> getSink e < getNumNodes gr
           \<and> 0 \<le> getCapacity e))"

lemma wf_nodeExists: "wf_graph gr \<Longrightarrow> nodeExists gr n \<longleftrightarrow> 0 \<le> n \<and> n < getNumNodes gr"
proof -
  assume "wf_graph gr"
  then have k: "map fst (getGraph gr) = [0 .. getNumNodes gr - 1]"
    by (simp add: wf_graph_def)
  have "nodeExists gr n \<longleftrightarrow> n \<in> set (map fst (getGraph gr))"
    by (simp add: nodeExists_def map_of_eq_None_iff)
  then show ?thesis by (auto simp: k)
qed

lemma wf_distinct_keys: "wf_graph gr \<Longrightarrow> distinct (map fst (getGraph gr))"
  by (simp add: wf_graph_def)

lemma wf_adj_mem: "wf_graph gr \<Longrightarrow> nodeExists gr s \<Longrightarrow> (s, adjOf gr s) \<in> set (getGraph gr)"
  by (auto simp: nodeExists_def adjOf_def dest: map_of_SomeD)

lemma wf_edge:
  assumes "wf_graph gr" "lookupEdge gr s t = Some e"
  shows "getSource e = s \<and> getSink e = t \<and> 0 \<le> getCapacity e \<and> nodeExists gr s \<and> nodeExists gr t"
proof -
  from assms(2) obtain es where m: "map_of (getGraph gr) s = Some es" and f: "findEdge es t = Some e"
    by (auto simp: lookupEdge_def split: option.splits)
  from m have mem: "(s, es) \<in> set (getGraph gr)" by (rule map_of_SomeD)
  from f have e: "getSink e = t" "e \<in> set es" by (simp_all add: findEdge_Some)
  from assms(1) mem e have p: "getSource e = s \<and> 0 \<le> getSink e \<and> getSink e < getNumNodes gr
      \<and> 0 \<le> getCapacity e"
    by (auto simp: wf_graph_def)
  have "nodeExists gr s" using m by (simp add: nodeExists_def)
  moreover have "nodeExists gr t" using p e assms(1) by (simp add: wf_nodeExists)
  ultimately show ?thesis using p e by simp
qed

section \<open>Facts about int arithmetic\<close>

lemma int32_id: "INT_MIN \<le> x \<Longrightarrow> x \<le> INT_MAX \<Longrightarrow> int32 x = x"
  by (simp add: int32_def INT_MIN_def INT_MAX_def)

lemma int32_range: "INT_MIN \<le> int32 x \<and> int32 x \<le> INT_MAX"
proof -
  have "0 \<le> (x + 2147483648) mod 4294967296" "(x + 2147483648) mod 4294967296 < 4294967296"
    by simp_all
  then show ?thesis by (simp add: int32_def INT_MIN_def INT_MAX_def)
qed

lemma int32_wrapped:
  assumes "INT_MAX < x" "x \<le> INT_MAX - INT_MIN"
  shows "int32 x = x - 4294967296"
proof -
  have "(x + 2147483648) mod 4294967296 = (x - 2147483648 + 4294967296) mod 4294967296"
    by (simp add: algebra_simps)
  also have "\<dots> = (x - 2147483648) mod 4294967296"
    by (rule mod_add_self2)
  also have "\<dots> = x - 2147483648"
    using assms by (simp add: INT_MIN_def INT_MAX_def)
  finally show ?thesis by (simp add: int32_def)
qed

lemma int32_mod: "int32 x mod 4294967296 = x mod 4294967296"
  by (simp add: int32_def mod_diff_left_eq)

lemma int32_cong: "x mod 4294967296 = y mod 4294967296 \<Longrightarrow> int32 x = int32 y"
  unfolding int32_def using mod_add_cong [of x 4294967296 y 2147483648 2147483648] by simp

lemma int32_int32: "int32 (int32 x) = int32 x"
  by (rule int32_cong) (rule int32_mod)

lemma int32_neg: "INT_MIN < x \<Longrightarrow> x \<le> INT_MAX \<Longrightarrow> int32 (- x) = - x"
  by (rule int32_id) (simp_all add: INT_MIN_def INT_MAX_def)

text \<open>
  The call of \<^verbatim>\<open>setEdgeCapacity\<close> with a sum or difference of \<^verbatim>\<open>int\<close>s: for a capacity
  \<open>0 \<le> c \<le> INT_MAX\<close> and a flow \<open>INT_MIN \<le> f \<le> INT_MAX\<close> the exact values \<open>c + f\<close> and (for
  \<open>f \<le> c\<close>) \<open>c - f\<close> lie between \<open>INT_MIN\<close> and \<open>INT_MAX - INT_MIN\<close>, and there
  \<open>setEdgeCapacityInt\<close> is \<^verbatim>\<open>setEdgeCapacity\<close> applied to the wrapped \<^verbatim>\<open>int\<close>.
\<close>

lemma setEdgeCapacityInt_int32:
  assumes "INT_MIN \<le> x" "x \<le> INT_MAX - INT_MIN"
  shows "setEdgeCapacityInt gr s t x = setEdgeCapacity gr s t (int32 x)"
proof (cases "x \<le> INT_MAX")
  case True
  then show ?thesis using assms by (simp add: setEdgeCapacityInt_def int32_id)
next
  case False
  then have "int32 x = x - 4294967296" using assms by (simp add: int32_wrapped)
  then have "int32 x < 0" using assms(2) by (simp add: INT_MAX_def INT_MIN_def)
  then show ?thesis using False by (simp add: setEdgeCapacityInt_def setEdgeCapacity_def)
qed

lemma setEdgeCapacityInt_Inr_iff:
  "setEdgeCapacityInt gr s t x = Inr g' \<longleftrightarrow> x \<le> INT_MAX \<and> setEdgeCapacity gr s t x = Inr g'"
  by (simp add: setEdgeCapacityInt_def)

section \<open>Augmentation along one edge\<close>

lemma getCapacity_withCapacity [simp]: "getCapacity (withCapacity c e) = c"
  "getWeight (withCapacity c e) = getWeight e" "getSink (withCapacity c e) = getSink e"
  "getSource (withCapacity c e) = getSource e"
  by (simp_all add: withCapacity_def)

text \<open>The exact value of the capacity that \<^verbatim>\<open>SendFlowInPath\<close> computes for the traversed
  edge.\<close>

definition newCapacity :: "Edge \<Rightarrow> int \<Rightarrow> int" where
  "newCapacity edge flow =
     (if getWeight edge < 0 then getCapacity edge + flow else getCapacity edge - flow)"

text \<open>The graph after the first half of the loop body: the traversed edge \<open>a \<rightarrow> b\<close> has the
  capacity \<open>c\<close>, or is removed when \<open>c\<close> is 0.\<close>

definition forwardUpdate :: "Graph \<Rightarrow> int \<Rightarrow> int \<Rightarrow> int \<Rightarrow> Graph" where
  "forwardUpdate g a b c =
     (if c = 0 then setAdj g a (filter (\<lambda>e. getSink e \<noteq> b) (adjOf g a))
      else setAdj g a (map (\<lambda>e. if getSink e = b then withCapacity c e else e) (adjOf g a)))"

text \<open>The traversed edge after the first half of the loop body, and the reverse edge
  \<open>b \<rightarrow> a\<close> that the second half finds: for a self-loop (\<open>a = b\<close>) it is the traversed edge
  itself, as just updated.\<close>

definition updatedEdge :: "Edge \<Rightarrow> int \<Rightarrow> Edge option" where
  "updatedEdge edge flow =
     (if newCapacity edge flow = 0 then None
      else Some (withCapacity (newCapacity edge flow) edge))"

definition reverseSeen :: "Graph \<Rightarrow> int \<Rightarrow> int \<Rightarrow> Edge \<Rightarrow> int \<Rightarrow> Edge option" where
  "reverseSeen g a b edge flow = (if a = b then updatedEdge edge flow else lookupEdge g b a)"

lemma lookupEdge_forwardUpdate:
  assumes "lookupEdge g a b = Some edge"
  shows "lookupEdge (forwardUpdate g a b c) s t
     = (if s = a \<and> t = b then (if c = 0 then None else Some (withCapacity c edge))
        else lookupEdge g s t)"
proof -
  have f: "findEdge (adjOf g a) b = Some edge" using assms by (simp add: lookupEdge_adjOf)
  show ?thesis
    by (simp add: forwardUpdate_def lookupEdge_setAdj findEdge_filter findEdge_map_withCapacity
        lookupEdge_adjOf [of g a] f)
qed

lemma nodeExists_forwardUpdate:
  "nodeExists g a \<Longrightarrow> nodeExists (forwardUpdate g a b c) n = nodeExists g n"
  by (auto simp: forwardUpdate_def nodeExists_setAdj)

lemma getNumNodes_forwardUpdate:
  "nodeExists g a \<Longrightarrow> getNumNodes (forwardUpdate g a b c) = getNumNodes g"
  by (simp add: forwardUpdate_def getNumNodes_setAdj)


lemma forwardUpdate_fields [simp]:
  "getStartingNumNodes (forwardUpdate g a b c) = getStartingNumNodes g"
  "getArtificialNodesMap (forwardUpdate g a b c) = getArtificialNodesMap g"
  by (simp_all add: forwardUpdate_def)

lemma filter_map_withCapacity:
  "filter (\<lambda>e. getSink e \<noteq> t) (map (\<lambda>e. if getSink e = t then withCapacity c e else e) es)
     = filter (\<lambda>e. getSink e \<noteq> t) es"
  by (induction es) auto

lemma setAdj_setAdj: "setAdj (setAdj gr n es) n es' = setAdj gr n es'"
  by (simp add: setAdj_def)

lemma setEdgeCapacity_removeEdge:
  assumes "setEdgeCapacity gr s t c = Inr g1" "removeEdge g1 s t = Inr g2"
  shows "g2 = setAdj gr s (filter (\<lambda>e. getSink e \<noteq> t) (adjOf gr s))"
  using assms
  by (simp add: setEdgeCapacity_Inr_iff removeEdge_Inr_iff adjOf_setAdj setAdj_setAdj
      filter_map_withCapacity)

lemma SendFlowInEdge_refused:
  assumes "getEdge rg a b = Inr edge" "0 \<le> getWeight edge" "getCapacity edge < flow"
  shows "SendFlowInEdge rg a b flow = Inl InvalidArgument"
  using assms by (simp add: SendFlowInEdge_def)

lemma SendFlowInEdge_overflow:
  assumes "getEdge rg a b = Inr edge" "INT_MAX < newCapacity edge flow"
  shows "SendFlowInEdge rg a b flow = Inl InvalidArgument"
proof (cases "getWeight edge < 0")
  case True
  then show ?thesis
    using assms by (simp add: SendFlowInEdge_def setEdgeCapacityInt_def newCapacity_def)
next
  case False
  then show ?thesis
    using assms by (simp add: SendFlowInEdge_def setEdgeCapacityInt_def newCapacity_def)
qed

text \<open>When the first half of the loop body goes through, the body is the second half on
  the updated graph.\<close>

lemma SendFlowInEdge_unfold:
  assumes e: "getEdge g a b = Inr edge"
    and ok: "\<not> (0 \<le> getWeight edge \<and> getCapacity edge < flow)"
    and c0: "0 \<le> newCapacity edge flow" and cm: "newCapacity edge flow \<le> INT_MAX"
  shows "SendFlowInEdge g a b flow =
     (case lookupEdge (forwardUpdate g a b (newCapacity edge flow)) b a of
        None \<Rightarrow> addEdge (forwardUpdate g a b (newCapacity edge flow)) b a flow
                  (int32 (- getWeight edge))
      | Some r \<Rightarrow> setEdgeCapacityInt (forwardUpdate g a b (newCapacity edge flow)) b a
                  (getCapacity r + flow))"
proof -
  let ?c = "newCapacity edge flow"
  let ?g2 = "forwardUpdate g a b ?c"
  from e have na: "nodeExists g a" and nb: "nodeExists g b" and lk: "lookupEdge g a b = Some edge"
    by (simp_all add: getEdge_Inr_iff)
  obtain g1 where s1: "setEdgeCapacity g a b ?c = Inr g1"
    using na nb lk c0 by (simp add: setEdgeCapacity_Inr_iff)
  have g1: "g1 = setAdj g a (map (\<lambda>e. if getSink e = b then withCapacity ?c e else e) (adjOf g a))"
    using s1 by (simp add: setEdgeCapacity_Inr_iff)
  have s1': "setEdgeCapacityInt g a b ?c = Inr g1"
    using s1 cm by (simp add: setEdgeCapacityInt_def)
  have l1: "\<And>s t. lookupEdge g1 s t
      = (if s = a \<and> t = b then Some (withCapacity ?c edge) else lookupEdge g s t)"
    by (simp add: lookupEdge_setEdgeCapacity [OF s1] lk)
  have n1: "\<And>n. nodeExists g1 n = nodeExists g n"
    by (rule nodeExists_setEdgeCapacity [OF s1])
  have ge1: "getEdge g1 a b = Inr (withCapacity ?c edge)"
    by (simp add: getEdge_Inr_iff n1 na nb l1)
  have s2: "(if ?c = 0 then removeEdge g1 a b else Inr g1) = Inr ?g2"
  proof (cases "?c = 0")
    case True
    obtain g2 where r: "removeEdge g1 a b = Inr g2"
      by (simp add: removeEdge_Inr_iff n1 na nb l1)
    from setEdgeCapacity_removeEdge [OF s1 r] show ?thesis
      using True r by (simp add: forwardUpdate_def)
  next
    case False
    then show ?thesis by (simp add: forwardUpdate_def g1)
  qed
  have n2: "nodeExists ?g2 a" "nodeExists ?g2 b"
    using na nb by (simp_all add: nodeExists_forwardUpdate)
  have h2: "hasEdge ?g2 b a = Inr (lookupEdge ?g2 b a \<noteq> None)"
    by (simp add: hasEdge_Inr_iff n2)
  have step: "SendFlowInEdge g a b flow =
      (if lookupEdge ?g2 b a = None then addEdge ?g2 b a flow (int32 (- getWeight edge))
       else bindE (getEdge ?g2 b a) (\<lambda>reverse.
              setEdgeCapacityInt ?g2 b a (getCapacity reverse + flow)))"
    using ok e s1' ge1 s2 h2
    by (simp add: SendFlowInEdge_def newCapacity_def Let_def split: if_splits)
  show ?thesis
  proof (cases "lookupEdge ?g2 b a")
    case None
    then show ?thesis using step by simp
  next
    case (Some r)
    then have "getEdge ?g2 b a = Inr r" by (simp add: getEdge_Inr_iff n2)
    then show ?thesis using step Some by simp
  qed
qed

lemma SendFlowInEdge_accepted:
  assumes wf: "wf_graph g" and e: "getEdge g a b = Inr edge" and f: "0 \<le> flow"
    and ok: "\<not> (0 \<le> getWeight edge \<and> getCapacity edge < flow)"
    and cm: "newCapacity edge flow \<le> INT_MAX"
  shows "(\<forall>r. reverseSeen g a b edge flow = Some r \<and> INT_MAX < getCapacity r + flow \<longrightarrow>
            SendFlowInEdge g a b flow = Inl InvalidArgument) \<and>
     ((\<forall>r. reverseSeen g a b edge flow = Some r \<longrightarrow> getCapacity r + flow \<le> INT_MAX) \<longrightarrow>
      (\<exists>g'. SendFlowInEdge g a b flow = Inr g' \<and>
         lookupEdge g' b a =
           (case reverseSeen g a b edge flow of
              None \<Rightarrow> Some (Edge b a flow (int32 (- getWeight edge)))
            | Some r \<Rightarrow> Some (withCapacity (getCapacity r + flow) r)) \<and>
         (a \<noteq> b \<longrightarrow> lookupEdge g' a b = updatedEdge edge flow) \<and>
         (\<forall>s t. (s, t) \<noteq> (a, b) \<and> (s, t) \<noteq> (b, a) \<longrightarrow> lookupEdge g' s t = lookupEdge g s t)))"
proof -
  let ?c = "newCapacity edge flow"
  let ?g2 = "forwardUpdate g a b ?c"
  let ?rev = "reverseSeen g a b edge flow"
  from e have na: "nodeExists g a" and nb: "nodeExists g b" and lk: "lookupEdge g a b = Some edge"
    by (simp_all add: getEdge_Inr_iff)
  from wf_edge [OF wf lk] have cap: "0 \<le> getCapacity edge" by simp
  have c0: "0 \<le> ?c" using ok f cap by (auto simp: newCapacity_def)
  have rng: "0 \<le> a" "0 \<le> b" "a < getNumNodes g" "b < getNumNodes g"
    using na nb wf by (simp_all add: wf_nodeExists)
  note unfold = SendFlowInEdge_unfold [OF e ok c0 cm]
  note l2 = lookupEdge_forwardUpdate [OF lk, of ?c]
  have n2: "nodeExists ?g2 n = nodeExists g n" for n
    using na by (rule nodeExists_forwardUpdate)
  have c2: "getNumNodes ?g2 = getNumNodes g"
    using na by (rule getNumNodes_forwardUpdate)
  have rev: "lookupEdge ?g2 b a = ?rev"
    by (simp add: l2 reverseSeen_def updatedEdge_def)
  have revcap: "0 \<le> getCapacity r" if "?rev = Some r" for r
  proof (cases "a = b")
    case True
    then show ?thesis using that c0 by (auto simp: reverseSeen_def updatedEdge_def split: if_splits)
  next
    case False
    then have "lookupEdge g b a = Some r" using that by (simp add: reverseSeen_def)
    from wf_edge [OF wf this] show ?thesis by simp
  qed
  have fail: "SendFlowInEdge g a b flow = Inl InvalidArgument"
    if "?rev = Some r" "INT_MAX < getCapacity r + flow" for r
    using that by (simp add: unfold rev setEdgeCapacityInt_def)
  have succeed: "\<exists>g'. SendFlowInEdge g a b flow = Inr g' \<and>
         lookupEdge g' b a =
           (case ?rev of
              None \<Rightarrow> Some (Edge b a flow (int32 (- getWeight edge)))
            | Some r \<Rightarrow> Some (withCapacity (getCapacity r + flow) r)) \<and>
         (a \<noteq> b \<longrightarrow> lookupEdge g' a b = updatedEdge edge flow) \<and>
         (\<forall>s t. (s, t) \<noteq> (a, b) \<and> (s, t) \<noteq> (b, a) \<longrightarrow> lookupEdge g' s t = lookupEdge g s t)"
    if bound: "\<forall>r. ?rev = Some r \<longrightarrow> getCapacity r + flow \<le> INT_MAX"
  proof (cases ?rev)
    case None
    then have "lookupEdge ?g2 b a = None" by (simp add: rev)
    then obtain g3 where s3: "addEdge ?g2 b a flow (int32 (- getWeight edge)) = Inr g3"
      using rng f by (simp add: addEdge_Inr_iff c2)
    have l3: "\<And>s t. lookupEdge g3 s t
        = (if s = b \<and> t = a then Some (Edge b a flow (int32 (- getWeight edge)))
           else lookupEdge ?g2 s t)"
      by (simp add: lookupEdge_addEdge [OF s3])
    have "SendFlowInEdge g a b flow = Inr g3"
      using None s3 by (simp add: unfold rev)
    moreover have "lookupEdge g3 b a = Some (Edge b a flow (int32 (- getWeight edge)))"
      by (simp add: l3)
    moreover have "a \<noteq> b \<longrightarrow> lookupEdge g3 a b = updatedEdge edge flow"
      by (auto simp: l3 l2 updatedEdge_def)
    moreover have "\<forall>s t. (s, t) \<noteq> (a, b) \<and> (s, t) \<noteq> (b, a) \<longrightarrow> lookupEdge g3 s t = lookupEdge g s t"
      by (auto simp: l3 l2)
    ultimately show ?thesis using None by simp
  next
    case (Some r)
    then have lr: "lookupEdge ?g2 b a = Some r" by (simp add: rev)
    have rc: "0 \<le> getCapacity r" using revcap [OF Some] .
    have rm: "getCapacity r + flow \<le> INT_MAX" using bound Some by simp
    obtain g3 where s3: "setEdgeCapacity ?g2 b a (getCapacity r + flow) = Inr g3"
      using rc f lr by (simp add: setEdgeCapacity_Inr_iff n2 na nb)
    have l3: "\<And>s t. lookupEdge g3 s t
        = (if s = b \<and> t = a then Some (withCapacity (getCapacity r + flow) r)
           else lookupEdge ?g2 s t)"
      by (simp add: lookupEdge_setEdgeCapacity [OF s3] lr)
    have "SendFlowInEdge g a b flow = Inr g3"
      using Some s3 rm by (simp add: unfold rev setEdgeCapacityInt_def)
    moreover have "lookupEdge g3 b a = Some (withCapacity (getCapacity r + flow) r)"
      by (simp add: l3)
    moreover have "a \<noteq> b \<longrightarrow> lookupEdge g3 a b = updatedEdge edge flow"
      by (auto simp: l3 l2 updatedEdge_def)
    moreover have "\<forall>s t. (s, t) \<noteq> (a, b) \<and> (s, t) \<noteq> (b, a) \<longrightarrow> lookupEdge g3 s t = lookupEdge g s t"
      by (auto simp: l3 l2)
    ultimately show ?thesis using Some by simp
  qed
  from fail succeed show ?thesis by blast
qed

lemma SendFlowPairs_foldE:
  "SendFlowPairs rg path flow = foldE (\<lambda>g (a, b). SendFlowInEdge g a b flow) (pairs path) rg"
  by (induction rg path flow rule: SendFlowPairs.induct)
     (simp_all add: pairs_Cons2 pairs_single pairs_Nil split: sum.splits)

lemma SendFlowInPath_foldE:
  "path \<noteq> [] \<Longrightarrow>
   SendFlowInPath rg path flow = foldE (\<lambda>g (a, b). SendFlowInEdge g a b flow) (pairs path) rg"
  using SendFlowLoop_pairs [of 0 path rg flow]
  by (simp add: SendFlowInPath_def SendFlowPairs_foldE)

text \<open>
  Claim C4, as the code has it. \<^verbatim>\<open>SendFlowInPath\<close> applies the loop body to each
  consecutive pair \<open>(a, b)\<close> of the path, from left to right. The body fails with
  \<^verbatim>\<open>InvalidArgument\<close> when the traversed edge has a cost \<open>\<ge> 0\<close> and a capacity smaller than
  the flow, and when the new capacity of the traversed edge (capacity plus flow for a
  negative cost, capacity minus flow otherwise) exceeds \<open>INT_MAX\<close>. Otherwise, on a
  well-formed graph and for a flow \<open>\<ge> 0\<close>, the traversed edge gets its new capacity and is
  deleted when that capacity is 0. Afterwards the reverse edge \<open>b \<rightarrow> a\<close> is looked up (for
  a self-loop it is the traversed edge as just updated): when it is absent it is created
  with capacity \<open>flow\<close> and the \<^verbatim>\<open>int\<close> negation of the cost of the traversed edge, which is
  the negated cost for every cost above \<open>INT_MIN\<close>; when it is present its capacity grows
  by the flow and its cost stays as it is, and the body fails with \<^verbatim>\<open>InvalidArgument\<close> when
  that sum exceeds \<open>INT_MAX\<close>. No other edge changes.
\<close>

theorem SendFlowInPath_effect:
  "(path \<noteq> [] \<longrightarrow>
      SendFlowInPath rg path flow
        = foldE (\<lambda>g (a, b). SendFlowInEdge g a b flow) (pairs path) rg) \<and>
   (getEdge g a b = Inr edge \<and> 0 \<le> getWeight edge \<and> getCapacity edge < flow \<longrightarrow>
      SendFlowInEdge g a b flow = Inl InvalidArgument) \<and>
   (getEdge g a b = Inr edge \<and> INT_MAX < newCapacity edge flow \<longrightarrow>
      SendFlowInEdge g a b flow = Inl InvalidArgument) \<and>
   (wf_graph g \<and> getEdge g a b = Inr edge \<and> 0 \<le> flow
      \<and> \<not> (0 \<le> getWeight edge \<and> getCapacity edge < flow)
      \<and> newCapacity edge flow \<le> INT_MAX \<longrightarrow>
      (\<forall>r. reverseSeen g a b edge flow = Some r \<and> INT_MAX < getCapacity r + flow \<longrightarrow>
            SendFlowInEdge g a b flow = Inl InvalidArgument) \<and>
      ((\<forall>r. reverseSeen g a b edge flow = Some r \<longrightarrow> getCapacity r + flow \<le> INT_MAX) \<longrightarrow>
       (\<exists>g'. SendFlowInEdge g a b flow = Inr g' \<and>
          lookupEdge g' b a =
            (case reverseSeen g a b edge flow of
               None \<Rightarrow> Some (Edge b a flow (int32 (- getWeight edge)))
             | Some r \<Rightarrow> Some (withCapacity (getCapacity r + flow) r)) \<and>
          (a \<noteq> b \<longrightarrow> lookupEdge g' a b = updatedEdge edge flow) \<and>
          (\<forall>s t. (s, t) \<noteq> (a, b) \<and> (s, t) \<noteq> (b, a) \<longrightarrow>
             lookupEdge g' s t = lookupEdge g s t)))) \<and>
   (INT_MIN < getWeight edge \<and> getWeight edge \<le> INT_MAX \<longrightarrow>
      int32 (- getWeight edge) = - getWeight edge)"
  using SendFlowInPath_foldE [of path rg flow] SendFlowInEdge_refused [of g a b edge flow]
    SendFlowInEdge_overflow [of g a b edge flow] SendFlowInEdge_accepted [of g a b edge flow]
    int32_neg [of "getWeight edge"]
  by blast

lemma wf_path_graph: "wf_graph path_graph"
  by (simp add: wf_graph_def path_graph_def getNumNodes_def upto.simps)

lemmas graph_eval = getEdge_def nodeExists_def lookupEdge_def
      findEdge_def setEdgeCapacity_def setAdj_def adjOf_def withCapacity_def hasEdge_def
      addEdge_def getNumNodes_def ensureNode_def removeEdge_def getNodeAdjList_def new_Graph_def
      setEdgeCapacityInt_def INT_MAX_def int32_def

lemma SendFlowInEdge_path_graph:
  "SendFlowInEdge path_graph 0 1 2
     = Inr (Graph 3 [(0, [Edge 0 1 3 1]), (1, [Edge 1 2 3 1, Edge 1 0 2 (- 1)]), (2, [])] [])"
  by (simp add: SendFlowInEdge_def path_graph_def graph_eval)

theorem SendFlowInPath_effect_witness:
  "wf_graph path_graph \<and> getEdge path_graph 0 1 = Inr (Edge 0 1 5 1)
   \<and> newCapacity (Edge 0 1 5 1) 2 \<le> INT_MAX
   \<and> reverseSeen path_graph 0 1 (Edge 0 1 5 1) 2 = None
   \<and> SendFlowInPath path_graph [0, 1] 2
       = Inr (Graph 3 [(0, [Edge 0 1 3 1]), (1, [Edge 1 2 3 1, Edge 1 0 2 (- 1)]), (2, [])] [])
   \<and> lookupEdge (Graph 3 [(0, [Edge 0 1 3 1]), (1, [Edge 1 2 3 1, Edge 1 0 2 (- 1)]), (2, [])] [])
        1 0 = Some (Edge 1 0 2 (- 1))
   \<and> lookupEdge (Graph 3 [(0, [Edge 0 1 3 1]), (1, [Edge 1 2 3 1, Edge 1 0 2 (- 1)]), (2, [])] [])
        0 1 = updatedEdge (Edge 0 1 5 1) 2"
proof -
  have l: "lookupEdge (Graph 3 [(0, [Edge 0 1 3 1]), (1, [Edge 1 2 3 1, Edge 1 0 2 (- 1)]),
      (2, [])] []) 1 0 = Some (Edge 1 0 2 (- 1))"
    "lookupEdge (Graph 3 [(0, [Edge 0 1 3 1]), (1, [Edge 1 2 3 1, Edge 1 0 2 (- 1)]),
      (2, [])] []) 0 1 = updatedEdge (Edge 0 1 5 1) 2"
    by (simp_all add: lookupEdge_def findEdge_def updatedEdge_def newCapacity_def
        withCapacity_def)
  have r: "reverseSeen path_graph 0 1 (Edge 0 1 5 1) 2 = None"
    by (simp add: reverseSeen_def path_graph_def lookupEdge_def findEdge_def)
  have c: "newCapacity (Edge 0 1 5 1) 2 \<le> INT_MAX"
    by (simp add: newCapacity_def INT_MAX_def)
  show ?thesis
    using SendFlowInPath_effect [of "[0, 1]" path_graph 2 path_graph 0 1 "Edge 0 1 5 1"]
    by (simp add: wf_path_graph path_graph_edges SendFlowInEdge_path_graph pairs_def l r c)
qed

text \<open>
  Claim C4 as stated fails. In the graph with the edges \<open>0 \<rightarrow> 1\<close> (capacity 5, cost 1)
  and \<open>1 \<rightarrow> 0\<close> (capacity 3, cost 7) the flow 2 along the path \<open>0, 1\<close> leaves the reverse edge \<open>1 \<rightarrow> 0\<close> with the capacity 5 and its old cost 7, which is not the negation of the cost 1 of the traversed edge. And the traversed edge \<open>0 \<rightarrow> 1\<close> of negative cost and capacity \<open>INT_MAX\<close> does not get its capacity increased by the flow 1: the call fails with \<^verbatim>\<open>InvalidArgument\<close>.
\<close>

theorem SendFlowInPath_reverse_cost_kept:
  "SendFlowInPath (Graph 2 [(0, [Edge 0 1 5 1]), (1, [Edge 1 0 3 7])] []) [0, 1] 2
     = Inr (Graph 2 [(0, [Edge 0 1 3 1]), (1, [Edge 1 0 5 7])] [])
   \<and> lookupEdge (Graph 2 [(0, [Edge 0 1 3 1]), (1, [Edge 1 0 5 7])] []) 1 0
       = Some (Edge 1 0 5 7)
   \<and> getWeight (Edge 1 0 5 7) \<noteq> - getWeight (Edge 0 1 5 1)
   \<and> SendFlowInPath (Graph 2 [(0, [Edge 0 1 2147483647 (- 1)]), (1, [])] []) [0, 1] 1
       = Inl InvalidArgument"
  by (simp add: SendFlowInPath_foldE pairs_def SendFlowInEdge_def graph_eval)

text \<open>A self-loop: the first half of the loop body decreases the capacity 5 to 3, and the
  second half finds the edge itself as reverse edge and increases its capacity back to
  5.\<close>

lemma SendFlowInPath_self_loop:
  "SendFlowInPath (Graph 1 [(0, [Edge 0 0 5 1])] []) [0, 0] 2
     = Inr (Graph 1 [(0, [Edge 0 0 5 1])] [])"
  by (simp add: SendFlowInPath_foldE pairs_def SendFlowInEdge_def graph_eval)

lemma SendFlowInEdge_Inr_D:
  assumes "SendFlowInEdge g a b flow = Inr g'"
  shows "\<exists>edge g1 g2. getEdge g a b = Inr edge
     \<and> (0 \<le> getWeight edge \<longrightarrow> flow \<le> getCapacity edge)
     \<and> setEdgeCapacity g a b (newCapacity edge flow) = Inr g1
     \<and> (if newCapacity edge flow = 0 then removeEdge g1 a b = Inr g2 else g2 = g1)
     \<and> nodeExists g2 a \<and> nodeExists g2 b
     \<and> (case lookupEdge g2 b a of
           None \<Rightarrow> addEdge g2 b a flow (int32 (- getWeight edge)) = Inr g'
         | Some r \<Rightarrow> setEdgeCapacity g2 b a (getCapacity r + flow) = Inr g')"
proof -
  from assms obtain edge where e: "getEdge g a b = Inr edge"
    by (auto simp: SendFlowInEdge_def bindE_Inr_iff)
  have ok: "0 \<le> getWeight edge \<longrightarrow> flow \<le> getCapacity edge"
    using assms e by (auto simp: SendFlowInEdge_def Let_def split: if_splits)
  then have nc: "(if getWeight edge < 0 then Inr (getCapacity edge + flow)
        else if getCapacity edge < flow then Inl InvalidArgument
        else Inr (getCapacity edge - flow)) = Inr (newCapacity edge flow)"
    by (auto simp: newCapacity_def)
  from assms e nc obtain g1 where s1': "setEdgeCapacityInt g a b (newCapacity edge flow) = Inr g1"
    by (auto simp: SendFlowInEdge_def Let_def bindE_Inr_iff)
  then have s1: "setEdgeCapacity g a b (newCapacity edge flow) = Inr g1"
    by (simp add: setEdgeCapacityInt_Inr_iff)
  from e have na: "nodeExists g a" "nodeExists g b" and lk: "lookupEdge g a b = Some edge"
    by (simp_all add: getEdge_Inr_iff)
  have ge1: "getEdge g1 a b = Inr (withCapacity (newCapacity edge flow) edge)"
    by (simp add: getEdge_Inr_iff nodeExists_setEdgeCapacity [OF s1] na
        lookupEdge_setEdgeCapacity [OF s1] lk)
  from assms e nc s1' ge1 obtain g2
    where s2: "(if newCapacity edge flow = 0 then removeEdge g1 a b else Inr g1) = Inr g2"
      and rest: "bindE (hasEdge g2 b a) (\<lambda>has_reverse.
         if \<not> has_reverse then addEdge g2 b a flow (int32 (- getWeight edge))
         else bindE (getEdge g2 b a) (\<lambda>reverse.
                setEdgeCapacityInt g2 b a (getCapacity reverse + flow))) = Inr g'"
    by (auto simp: SendFlowInEdge_def Let_def bindE_Inr_iff)
  have s2': "if newCapacity edge flow = 0 then removeEdge g1 a b = Inr g2 else g2 = g1"
    using s2 by (auto split: if_splits)
  from rest obtain h where h: "hasEdge g2 b a = Inr h"
    by (auto simp: bindE_Inr_iff)
  then have n2: "nodeExists g2 a" "nodeExists g2 b" and hv: "h = (lookupEdge g2 b a \<noteq> None)"
    by (simp_all add: hasEdge_Inr_iff)
  have fin: "case lookupEdge g2 b a of
           None \<Rightarrow> addEdge g2 b a flow (int32 (- getWeight edge)) = Inr g'
         | Some r \<Rightarrow> setEdgeCapacity g2 b a (getCapacity r + flow) = Inr g'"
  proof (cases "lookupEdge g2 b a")
    case None
    then show ?thesis using rest h hv by simp
  next
    case (Some r)
    then have "getEdge g2 b a = Inr r" by (simp add: getEdge_Inr_iff n2)
    then show ?thesis using rest h hv Some by (simp add: setEdgeCapacityInt_Inr_iff)
  qed
  from e ok s1 s2' n2 fin show ?thesis by blast
qed

section \<open>Positive capacities\<close>

definition positiveCapacities :: "Graph \<Rightarrow> bool" where
  "positiveCapacities gr = list_all (\<lambda>e. 0 < getCapacity e) (allEdges gr)"

lemma foldE_invariant:
  assumes "foldE f xs s = Inr s'" and "P s"
    and "\<And>s x s'. P s \<Longrightarrow> x \<in> set xs \<Longrightarrow> f s x = Inr s' \<Longrightarrow> P s'"
  shows "P s'"
  using assms
proof (induction xs arbitrary: s)
  case Nil
  then show ?case by simp
next
  case (Cons x xs)
  from Cons.prems(1) obtain s1 where 1: "f s x = Inr s1" and 2: "foldE f xs s1 = Inr s'"
    by (auto split: sum.splits)
  have "P s1" by (rule Cons.prems(3) [OF Cons.prems(2) _ 1]) simp
  then show ?case
    by (rule Cons.IH [OF 2]) (rule Cons.prems(3), simp_all)
qed

lemma set_update_subset: "set (AList.update k v al) \<subseteq> insert (k, v) (set al)"
  by (induction al) auto

lemma positiveCapacities_iff:
  "positiveCapacities gr \<longleftrightarrow> (\<forall>(n, es) \<in> set (getGraph gr). \<forall>e \<in> set es. 0 < getCapacity e)"
  by (auto simp: positiveCapacities_def allEdges_def list_all_iff)

lemma positive_setAdj:
  "positiveCapacities gr \<Longrightarrow> \<forall>e \<in> set es. 0 < getCapacity e \<Longrightarrow> positiveCapacities (setAdj gr n es)"
  using set_update_subset [of n es "getGraph gr"]
  by (auto simp: positiveCapacities_iff setAdj_def)

lemma positive_adjOf:
  assumes "positiveCapacities gr" "e \<in> set (adjOf gr n)"
  shows "0 < getCapacity e"
proof (cases "map_of (getGraph gr) n")
  case None
  then show ?thesis using assms(2) by (simp add: adjOf_def)
next
  case (Some es)
  then have "(n, es) \<in> set (getGraph gr)" by (rule map_of_SomeD)
  moreover have "e \<in> set es" using assms(2) Some by (simp add: adjOf_def)
  ultimately show ?thesis using assms(1) by (auto simp: positiveCapacities_iff)
qed

lemma positive_lookupEdge: "positiveCapacities gr \<Longrightarrow> lookupEdge gr s t = Some e \<Longrightarrow> 0 < getCapacity e"
  using positive_adjOf [of gr e s] by (simp add: lookupEdge_adjOf findEdge_Some)

lemma positive_ensureNode: "positiveCapacities gr \<Longrightarrow> positiveCapacities (ensureNode gr n)"
  by (simp add: ensureNode_def positive_setAdj)

lemma positive_addEdge:
  "positiveCapacities gr \<Longrightarrow> 0 < c \<Longrightarrow> addEdge gr s t c w = Inr g' \<Longrightarrow> positiveCapacities g'"
  by (auto simp: addEdge_Inr_iff intro!: positive_setAdj positive_ensureNode
      dest: positive_adjOf)

lemma positive_setEdgeCapacity:
  "positiveCapacities gr \<Longrightarrow> 0 < c \<Longrightarrow> setEdgeCapacity gr s t c = Inr g' \<Longrightarrow> positiveCapacities g'"
  by (auto simp: setEdgeCapacity_Inr_iff intro!: positive_setAdj dest: positive_adjOf)

lemma positive_set_remove:
  assumes "positiveCapacities gr" "setEdgeCapacity gr s t c = Inr g1" "removeEdge g1 s t = Inr g2"
  shows "positiveCapacities g2"
  unfolding setEdgeCapacity_removeEdge [OF assms(2,3)]
  using assms(1) by (auto intro!: positive_setAdj dest: positive_adjOf)

lemma positive_SendFlowInEdge:
  assumes p: "positiveCapacities g" and f: "0 < flow" and s: "SendFlowInEdge g a b flow = Inr g'"
  shows "positiveCapacities g'"
proof -
  from SendFlowInEdge_Inr_D [OF s] obtain edge g1 g2 where
    s1: "setEdgeCapacity g a b (newCapacity edge flow) = Inr g1"
    and s2: "if newCapacity edge flow = 0 then removeEdge g1 a b = Inr g2 else g2 = g1"
    and s3: "case lookupEdge g2 b a of
           None \<Rightarrow> addEdge g2 b a flow (int32 (- getWeight edge)) = Inr g'
         | Some r \<Rightarrow> setEdgeCapacity g2 b a (getCapacity r + flow) = Inr g'"
    by blast
  have c0: "0 \<le> newCapacity edge flow"
    using s1 by (simp add: setEdgeCapacity_Inr_iff)
  have p2: "positiveCapacities g2"
  proof (cases "newCapacity edge flow = 0")
    case True
    then show ?thesis using s2 positive_set_remove [OF p s1] by simp
  next
    case False
    then show ?thesis using s2 c0 positive_setEdgeCapacity [OF p _ s1] by simp
  qed
  show ?thesis
  proof (cases "lookupEdge g2 b a")
    case None
    then show ?thesis using s3 positive_addEdge [OF p2 f] by simp
  next
    case (Some r)
    have "0 < getCapacity r + flow"
      using positive_lookupEdge [OF p2 Some] f by simp
    then show ?thesis using s3 Some positive_setEdgeCapacity [OF p2] by simp
  qed
qed

lemma positive_new_Graph: "positiveCapacities (new_Graph n)"
  by (simp add: positiveCapacities_iff new_Graph_def)

lemma positive_ResidualAddEdge:
  assumes "positiveCapacities rg" "ResidualAddEdge graph source rg e = Inr rg'"
  shows "positiveCapacities rg'"
proof (cases "getCapacity e \<le> 0")
  case True
  then show ?thesis using assms by (simp add: ResidualAddEdge_def)
next
  case False
  then have c: "0 < getCapacity e" by simp
  from assms(2) False obtain anti where
    r0: "(if anti then
            let artificial_node = getNumNodes rg in
            bindE (addEdge rg source artificial_node (getCapacity e) (getWeight e)) (\<lambda>g1.
              addEdge g1 artificial_node (getSink e) (getCapacity e) (getWeight e))
          else addEdge rg source (getSink e) (getCapacity e) (getWeight e)) = Inr rg'"
    by (auto simp: ResidualAddEdge_def Let_def bindE_Inr_iff)
  then have r: "(if anti then
            bindE (addEdge rg source (getNumNodes rg) (getCapacity e) (getWeight e)) (\<lambda>g1.
              addEdge g1 (getNumNodes rg) (getSink e) (getCapacity e) (getWeight e))
          else addEdge rg source (getSink e) (getCapacity e) (getWeight e)) = Inr rg'"
    by (cases anti) (simp_all add: Let_def)
  show ?thesis
  proof (cases anti)
    case True
    with r obtain g1 where "addEdge rg source (getNumNodes rg) (getCapacity e) (getWeight e) = Inr g1"
      and "addEdge g1 (getNumNodes rg) (getSink e) (getCapacity e) (getWeight e) = Inr rg'"
      by (auto simp: bindE_Inr_iff)
    then show ?thesis
      using positive_addEdge [OF assms(1) c] positive_addEdge [OF _ c] by blast
  next
    case False
    then show ?thesis using r positive_addEdge [OF assms(1) c] by simp
  qed
qed

lemma positive_GetResidualGraph:
  assumes "GetResidualGraph graph = Inr r"
  shows "positiveCapacities r"
proof -
  have node: "positiveCapacities rg'"
    if "positiveCapacities rg" "ResidualAddNode graph rg source = Inr rg'" for rg source rg'
  proof -
    from that(2) obtain adj where "foldE (ResidualAddEdge graph source) adj rg = Inr rg'"
      by (auto simp: ResidualAddNode_def bindE_Inr_iff)
    then show ?thesis
      using that(1) positive_ResidualAddEdge by (rule foldE_invariant)
  qed
  from assms have "foldE (ResidualAddNode graph) [0 .. getNumNodes graph - 1]
      (new_Graph (getNumNodes graph)) = Inr r"
    by (simp add: GetResidualGraph_def)
  then show ?thesis
    using positive_new_Graph node by (rule foldE_invariant)
qed

lemma positive_SendFlowInPath:
  assumes "positiveCapacities rg" "0 < flow" "SendFlowInPath rg path flow = Inr rg'"
  shows "positiveCapacities rg'"
proof (cases "path = []")
  case True
  then show ?thesis
    using assms(3) by (simp add: SendFlowInPath_def SendFlowLoop.simps [of _ "[]"]
        size_minus_one_def SIZE_MAX_def vec_at_def)
next
  case False
  from assms(3) have "foldE (\<lambda>g (a, b). SendFlowInEdge g a b flow) (pairs path) rg = Inr rg'"
    by (simp add: SendFlowInPath_foldE [OF False])
  then show ?thesis
    using assms(1)
  proof (rule foldE_invariant)
    fix s x s'
    assume "positiveCapacities s" "(case x of (a, b) \<Rightarrow> SendFlowInEdge s a b flow) = Inr s'"
    then show "positiveCapacities s'"
      using positive_SendFlowInEdge [OF _ assms(2)] by (cases x) auto
  qed
qed

text \<open>
  Claim C8. Every edge of a residual graph has a strictly positive capacity:
  \<^verbatim>\<open>GetResidualGraph\<close> adds only edges of positive capacity, and an augmentation by
  \<^verbatim>\<open>SendFlowInPath\<close> with a positive flow keeps all capacities positive, because an edge
  whose capacity reaches 0 is removed.
\<close>

theorem residual_capacities_positive:
  "(GetResidualGraph graph = Inr r \<longrightarrow> positiveCapacities r) \<and>
   (positiveCapacities rg \<and> 0 < flow \<and> SendFlowInPath rg path flow = Inr rg'
      \<longrightarrow> positiveCapacities rg')"
  using positive_GetResidualGraph [of graph r] positive_SendFlowInPath [of rg flow path rg']
  by blast

section \<open>Capacity conservation\<close>

text \<open>A pair \<open>(a, b)\<close> is traversed forward when the edge \<open>a \<rightarrow> b\<close> has a cost \<open>\<ge> 0\<close>.\<close>

definition isForward :: "Graph \<Rightarrow> int \<times> int \<Rightarrow> bool" where
  "isForward g p =
     (case getEdge g (fst p) (snd p) of Inl e \<Rightarrow> False | Inr edge \<Rightarrow> 0 \<le> getWeight edge)"

text \<open>
  The run of \<^verbatim>\<open>SendFlowInPath\<close> over the pairs of a path, with two counters: the capacity
  that the forward edges traversed lose, and the capacity that their reverse edges gain
  (an absent edge counts as capacity 0).
\<close>

fun SendFlowAccount :: "Graph \<Rightarrow> (int \<times> int) list \<Rightarrow> int \<Rightarrow> error + (Graph \<times> int \<times> int)" where
  "SendFlowAccount g [] flow = Inr (g, 0, 0)"
| "SendFlowAccount g (p # ps) flow =
     (case SendFlowInEdge g (fst p) (snd p) flow of
        Inl e \<Rightarrow> Inl e
      | Inr g' \<Rightarrow>
          (case SendFlowAccount g' ps flow of
             Inl e \<Rightarrow> Inl e
           | Inr (g'', removed, added) \<Rightarrow>
               Inr (g'',
                    (if isForward g p then capacityOf g p - capacityOf g' p else 0) + removed,
                    (if isForward g p
                     then capacityOf g' (snd p, fst p) - capacityOf g (snd p, fst p) else 0)
                      + added)))"

lemma capacityOf_lookupEdge:
  "nodeExists g a \<Longrightarrow> nodeExists g b \<Longrightarrow>
   capacityOf g (a, b) = (case lookupEdge g a b of None \<Rightarrow> 0 | Some e \<Rightarrow> getCapacity e)"
  by (simp add: capacityOf_def getEdge_def split: option.splits)

lemma SendFlowInEdge_conserves:
  assumes s: "SendFlowInEdge g a b flow = Inr g'" and fw: "isForward g (a, b)"
  shows "capacityOf g (a, b) - capacityOf g' (a, b) = (if a = b then 0 else flow)
    \<and> capacityOf g' (b, a) - capacityOf g (b, a) = (if a = b then 0 else flow)"
proof -
  from SendFlowInEdge_Inr_D [OF s] obtain edge g1 g2 where
    e: "getEdge g a b = Inr edge"
    and s1: "setEdgeCapacity g a b (newCapacity edge flow) = Inr g1"
    and s2: "if newCapacity edge flow = 0 then removeEdge g1 a b = Inr g2 else g2 = g1"
    and s3: "case lookupEdge g2 b a of
           None \<Rightarrow> addEdge g2 b a flow (int32 (- getWeight edge)) = Inr g'
         | Some r \<Rightarrow> setEdgeCapacity g2 b a (getCapacity r + flow) = Inr g'"
    by blast
  let ?c = "newCapacity edge flow"
  from e have na: "nodeExists g a" "nodeExists g b" and lk: "lookupEdge g a b = Some edge"
    by (simp_all add: getEdge_Inr_iff)
  have w: "0 \<le> getWeight edge" using fw e by (simp add: isForward_def)
  then have c: "?c = getCapacity edge - flow" by (simp add: newCapacity_def)
  have l1: "lookupEdge g1 s t
      = (if s = a \<and> t = b then Some (withCapacity ?c edge) else lookupEdge g s t)" for s t
    by (simp add: lookupEdge_setEdgeCapacity [OF s1] lk)
  have n1: "nodeExists g1 n = nodeExists g n" for n
    by (rule nodeExists_setEdgeCapacity [OF s1])
  have l2: "lookupEdge g2 s t
      = (if s = a \<and> t = b then (if ?c = 0 then None else Some (withCapacity ?c edge))
         else lookupEdge g s t)" for s t
  proof (cases "?c = 0")
    case True
    with s2 have "removeEdge g1 a b = Inr g2" by simp
    then show ?thesis using True by (simp add: lookupEdge_removeEdge l1)
  next
    case False
    with s2 show ?thesis by (simp add: l1)
  qed
  have n2: "nodeExists g2 n = nodeExists g n" for n
  proof (cases "?c = 0")
    case True
    with s2 have "removeEdge g1 a b = Inr g2" by simp
    then show ?thesis by (simp add: nodeExists_removeEdge n1)
  next
    case False
    with s2 show ?thesis by (simp add: n1)
  qed
  have l3: "lookupEdge g' s t
      = (if s = b \<and> t = a then
           (case lookupEdge g2 b a of None \<Rightarrow> Some (Edge b a flow (int32 (- getWeight edge)))
            | Some r \<Rightarrow> Some (withCapacity (getCapacity r + flow) r))
         else lookupEdge g2 s t)" for s t
  proof (cases "lookupEdge g2 b a")
    case None
    with s3 have "addEdge g2 b a flow (int32 (- getWeight edge)) = Inr g'" by simp
    then show ?thesis using None by (simp add: lookupEdge_addEdge)
  next
    case (Some r)
    with s3 have "setEdgeCapacity g2 b a (getCapacity r + flow) = Inr g'" by simp
    then show ?thesis using Some by (simp add: lookupEdge_setEdgeCapacity)
  qed
  have n3: "nodeExists g' a" "nodeExists g' b"
  proof -
    have "nodeExists g' n" if "nodeExists g n" for n
    proof (cases "lookupEdge g2 b a")
      case None
      with s3 have "addEdge g2 b a flow (int32 (- getWeight edge)) = Inr g'" by simp
      then show ?thesis using that by (simp add: nodeExists_addEdge n2)
    next
      case (Some r)
      with s3 have "setEdgeCapacity g2 b a (getCapacity r + flow) = Inr g'" by simp
      then show ?thesis using that by (simp add: nodeExists_setEdgeCapacity n2)
    qed
    then show "nodeExists g' a" "nodeExists g' b" using na by simp_all
  qed
  show ?thesis
  proof (cases "a = b")
    case True
    have "lookupEdge g b b = Some edge" using lk True by simp
    then show ?thesis
      using c True by (simp add: capacityOf_lookupEdge na n3 l3 l2)
  next
    case False
    then show ?thesis
      using c by (simp add: capacityOf_lookupEdge na n3 l3 l2 lk split: option.splits)
  qed
qed

lemma SendFlowAccount_balanced:
  "SendFlowAccount g ps flow = Inr (g', removed, added) \<Longrightarrow> removed = added"
proof (induction ps arbitrary: g removed added)
  case Nil
  then show ?case by simp
next
  case (Cons p ps)
  from Cons.prems obtain g1 r1 a1 where
    s: "SendFlowInEdge g (fst p) (snd p) flow = Inr g1"
    and rest: "SendFlowAccount g1 ps flow = Inr (g', r1, a1)"
    and r: "removed = (if isForward g p then capacityOf g p - capacityOf g1 p else 0) + r1"
    and a: "added = (if isForward g p
                     then capacityOf g1 (snd p, fst p) - capacityOf g (snd p, fst p) else 0) + a1"
    by (auto split: sum.splits)
  have "r1 = a1" using Cons.IH [OF rest] .
  moreover have "capacityOf g p - capacityOf g1 p
      = capacityOf g1 (snd p, fst p) - capacityOf g (snd p, fst p)" if "isForward g p"
    using SendFlowInEdge_conserves [OF s] that by (cases p) simp
  ultimately show ?case using r a by simp
qed

lemma SendFlowAccount_graph:
  "foldE (\<lambda>g (a, b). SendFlowInEdge g a b flow) ps g = Inr g' \<Longrightarrow>
   \<exists>removed added. SendFlowAccount g ps flow = Inr (g', removed, added)"
proof (induction ps arbitrary: g)
  case Nil
  then show ?case by simp
next
  case (Cons p ps)
  from Cons.prems obtain g1 where s: "SendFlowInEdge g (fst p) (snd p) flow = Inr g1"
    and rest: "foldE (\<lambda>g (a, b). SendFlowInEdge g a b flow) ps g1 = Inr g'"
    by (cases p) (auto split: sum.splits)
  from Cons.IH [OF rest] obtain r1 a1 where "SendFlowAccount g1 ps flow = Inr (g', r1, a1)"
    by blast
  then show ?case using s by simp
qed

text \<open>
  Claim C6. In a single call of \<^verbatim>\<open>SendFlowInPath\<close> the total capacity removed from the
  forward (non-negative cost) edges along the path equals the total capacity added to
  their reverse edges.
\<close>

theorem SendFlowInPath_conserves_capacity:
  "SendFlowInPath rg path flow = Inr rg' \<longrightarrow>
     (\<exists>total. SendFlowAccount rg (pairs path) flow = Inr (rg', total, total))"
proof
  assume s: "SendFlowInPath rg path flow = Inr rg'"
  then have ne: "path \<noteq> []"
    by (auto simp: SendFlowInPath_def SendFlowLoop.simps [of _ "[]"] size_minus_one_def
        SIZE_MAX_def vec_at_def)
  from s have "foldE (\<lambda>g (a, b). SendFlowInEdge g a b flow) (pairs path) rg = Inr rg'"
    by (simp add: SendFlowInPath_foldE [OF ne])
  from SendFlowAccount_graph [OF this] obtain removed added
    where a: "SendFlowAccount rg (pairs path) flow = Inr (rg', removed, added)" by blast
  from SendFlowAccount_balanced [OF a] a
  show "\<exists>total. SendFlowAccount rg (pairs path) flow = Inr (rg', total, total)" by simp
qed

section \<open>Examples\<close>

text \<open>Two nodes joined by an anti-parallel pair of edges.\<close>

definition antiparallel_graph :: Graph where
  "antiparallel_graph = Graph 2 [(0, [Edge 0 1 1 1]), (1, [Edge 1 0 1 1])] []"

definition antiparallel_residual :: Graph where
  "antiparallel_residual =
     Graph 2 [(0, [Edge 0 2 1 1]), (1, [Edge 1 0 1 1]), (2, [Edge 2 1 1 1])] []"

lemma upto_0_1: "[0 .. 1 :: int] = [0, 1]" 
  by (simp add: upto.simps)

text \<open>The residual graph of the pair after one unit of flow along \<open>0 \<rightarrow> 2 \<rightarrow> 1\<close>.\<close>

definition antiparallel_final :: Graph where
  "antiparallel_final =
     Graph 2 [(0, []), (1, [Edge 1 0 1 1, Edge 1 2 1 (- 1)]), (2, [Edge 2 0 1 (- 1)])] []"

lemma SendFlowInPath_antiparallel:
  "SendFlowInPath antiparallel_residual [0, 2, 1] 1 = Inr antiparallel_final"
  by (simp add: SendFlowInPath_foldE pairs_def SendFlowInEdge_def antiparallel_residual_def
      antiparallel_final_def graph_eval)

lemma GetResidualGraph_antiparallel:
  "GetResidualGraph antiparallel_graph = Inr antiparallel_residual"
  by (simp add: GetResidualGraph_def ResidualAddNode_def ResidualAddEdge_def antiparallel_graph_def
      antiparallel_residual_def graph_eval upto_0_1)

lemma SendFlowInPath_path_graph:
  "SendFlowInPath path_graph [0, 1, 2] 2 =
    Inr (Graph 3 [(0, [Edge 0 1 3 1]), (1, [Edge 1 2 1 1, Edge 1 0 2 (- 1)]),
                  (2, [Edge 2 1 2 (- 1)])] [])"
  by (simp add: SendFlowInPath_foldE pairs_def SendFlowInEdge_def path_graph_def graph_eval)

theorem residual_capacities_positive_witness:
  "positiveCapacities antiparallel_residual
   \<and> positiveCapacities (Graph 3 [(0, [Edge 0 1 3 1]), (1, [Edge 1 2 1 1, Edge 1 0 2 (- 1)]),
                  (2, [Edge 2 1 2 (- 1)])] [])"
proof -
  have "positiveCapacities path_graph"
    by (simp add: positiveCapacities_def allEdges_def path_graph_def)
  then show ?thesis
    using residual_capacities_positive [of antiparallel_graph antiparallel_residual
        path_graph 2 "[0, 1, 2]"]
      GetResidualGraph_antiparallel SendFlowInPath_path_graph
    by simp
qed

theorem SendFlowInPath_conserves_capacity_witness:
  "SendFlowAccount path_graph (pairs [0, 1, 2]) 2 =
    Inr (Graph 3 [(0, [Edge 0 1 3 1]), (1, [Edge 1 2 1 1, Edge 1 0 2 (- 1)]),
                  (2, [Edge 2 1 2 (- 1)])] [], 4, 4)"
proof -
  have "SendFlowAccount path_graph (pairs [0, 1, 2]) 2 =
    Inr (Graph 3 [(0, [Edge 0 1 3 1]), (1, [Edge 1 2 1 1, Edge 1 0 2 (- 1)]),
                  (2, [Edge 2 1 2 (- 1)])] [], 4, 4)"
    by (simp add: pairs_def SendFlowInEdge_def path_graph_def graph_eval isForward_def
        capacityOf_def)
  then show ?thesis
    using SendFlowInPath_conserves_capacity [of path_graph "[0, 1, 2]" 2] SendFlowInPath_path_graph
    by simp
qed

section \<open>The residual graph of a well-formed graph\<close>

text \<open>The edges that \<^verbatim>\<open>GetResidualGraph\<close> routes through an artificial node.\<close>

definition isSplit :: "Graph \<Rightarrow> int \<times> Edge \<Rightarrow> bool" where
  "isSplit gr p \<longleftrightarrow>
     0 < getCapacity (snd p) \<and> fst p < getSink (snd p)
     \<and> lookupEdge gr (getSink (snd p)) (fst p) \<noteq> None"

lemma foldE_append:
  "foldE f (xs @ ys) s = bindE (foldE f xs s) (foldE f ys)"
  by (induction xs arbitrary: s) (simp_all split: sum.splits)

lemma foldE_map_Pair:
  "foldE (\<lambda>rg (s, e). F s rg e) (map (Pair s) es) rg = foldE (F s) es rg"
  by (induction es arbitrary: rg) (simp_all split: sum.splits)

lemma getNodeAdjList_exists: "nodeExists gr s \<Longrightarrow> getNodeAdjList gr s = Inr (adjOf gr s)"
  by (auto simp: nodeExists_def getNodeAdjList_def adjOf_def)

lemma foldE_ResidualAddNode_flat:
  "\<forall>s \<in> set srcs. nodeExists graph s \<Longrightarrow>
   foldE (ResidualAddNode graph) srcs rg
     = foldE (\<lambda>rg (s, e). ResidualAddEdge graph s rg e)
         (concat (map (\<lambda>s. map (Pair s) (adjOf graph s)) srcs)) rg"
proof (induction srcs arbitrary: rg)
  case Nil
  then show ?case by simp
next
  case (Cons s srcs)
  have a: "ResidualAddNode graph rg s = foldE (ResidualAddEdge graph s) (adjOf graph s) rg"
    using Cons.prems by (simp add: ResidualAddNode_def getNodeAdjList_exists)
  show ?case
  proof (cases "foldE (ResidualAddEdge graph s) (adjOf graph s) rg")
    case (Inl err)
    then show ?thesis by (simp add: a foldE_append foldE_map_Pair)
  next
    case (Inr rg1)
    then show ?thesis using Cons.IH [of rg1] Cons.prems
      by (simp add: a foldE_append foldE_map_Pair)
  qed
qed

lemma GetResidualGraph_flat:
  assumes "wf_graph graph"
  shows "GetResidualGraph graph
     = foldE (\<lambda>rg (s, e). ResidualAddEdge graph s rg e) (edgeList graph)
         (new_Graph (getNumNodes graph))"
  unfolding GetResidualGraph_def edgeList_def
  by (rule foldE_ResidualAddNode_flat) (simp add: wf_nodeExists [OF assms])

lemma edgeList_mem:
  "(s, e) \<in> set (edgeList gr) \<longleftrightarrow> 0 \<le> s \<and> s < getNumNodes gr \<and> e \<in> set (adjOf gr s)"
  by (auto simp: edgeList_def)

lemma wf_adjOf:
  assumes "wf_graph gr" "e \<in> set (adjOf gr s)"
  shows "getSource e = s \<and> 0 \<le> getSink e \<and> getSink e < getNumNodes gr \<and> 0 \<le> getCapacity e
    \<and> distinct (map getSink (adjOf gr s)) \<and> nodeExists gr s"
proof (cases "map_of (getGraph gr) s")
  case None
  then show ?thesis using assms(2) by (simp add: adjOf_def)
next
  case (Some es)
  then have m: "(s, es) \<in> set (getGraph gr)" by (rule map_of_SomeD)
  have es: "adjOf gr s = es" using Some by (simp add: adjOf_def)
  have "nodeExists gr s" using Some by (simp add: nodeExists_def)
  then show ?thesis using assms m es by (auto simp: wf_graph_def)
qed

lemma findEdge_distinct_mem:
  "distinct (map getSink es) \<Longrightarrow> e \<in> set es \<Longrightarrow> findEdge es (getSink e) = Some e"
  by (induction es) (auto simp: findEdge_def)

lemma wf_edgeList_lookup:
  assumes "wf_graph gr" "(s, e) \<in> set (edgeList gr)"
  shows "lookupEdge gr s (getSink e) = Some e"
proof -
  from assms(2) have m: "e \<in> set (adjOf gr s)" by (simp add: edgeList_mem)
  from wf_adjOf [OF assms(1) m] have "distinct (map getSink (adjOf gr s))" by simp
  then show ?thesis using m by (simp add: lookupEdge_adjOf findEdge_distinct_mem)
qed

lemma lookupEdge_edgeList:
  assumes "wf_graph gr" "lookupEdge gr s t = Some e"
  shows "(s, e) \<in> set (edgeList gr) \<and> getSink e = t"
proof -
  from wf_edge [OF assms] have n: "nodeExists gr s" and t: "getSink e = t" by simp_all
  from assms(2) have "e \<in> set (adjOf gr s)" by (simp add: lookupEdge_adjOf findEdge_Some)
  then show ?thesis using n t wf_nodeExists [OF assms(1)] by (simp add: edgeList_mem)
qed

definition edgeKey :: "int \<times> Edge \<Rightarrow> int \<times> int" where
  "edgeKey p = (fst p, getSink (snd p))"

lemma distinct_edge_keys:
  "distinct srcs \<Longrightarrow> \<forall>s \<in> set srcs. distinct (map getSink (adjOf gr s)) \<Longrightarrow>
   distinct (map edgeKey (concat (map (\<lambda>s. map (Pair s) (adjOf gr s)) srcs)))"
proof (induction srcs)
  case Nil
  then show ?case by simp
next
  case (Cons s srcs)
  have 1: "distinct (map edgeKey (map (Pair s) (adjOf gr s)))"
  proof -
    have "distinct (map getSink (adjOf gr s))" using Cons.prems(2) by simp
    then have "distinct (map (Pair s) (map getSink (adjOf gr s)))"
      by (simp only: distinct_map) (simp add: inj_on_def)
    moreover have "map edgeKey (map (Pair s) (adjOf gr s)) = map (Pair s) (map getSink (adjOf gr s))"
      by (simp add: edgeKey_def)
    ultimately show ?thesis by (simp only:)
  qed
  have 2: "distinct (map edgeKey (concat (map (\<lambda>s. map (Pair s) (adjOf gr s)) srcs)))"
    using Cons by simp
  have 3: "set (map edgeKey (map (Pair s) (adjOf gr s)))
      \<inter> set (map edgeKey (concat (map (\<lambda>s. map (Pair s) (adjOf gr s)) srcs))) = {}"
    using Cons.prems(1) by (auto simp: edgeKey_def)
  from 1 2 3 show ?case by simp
qed

lemma wf_distinct_edgeList:
  assumes "wf_graph gr"
  shows "distinct (map edgeKey (edgeList gr))"
  unfolding edgeList_def
proof (rule distinct_edge_keys)
  show "distinct [0 .. getNumNodes gr - 1]" by simp
  show "\<forall>s \<in> set [0 .. getNumNodes gr - 1]. distinct (map getSink (adjOf gr s))"
  proof
    fix s assume "s \<in> set [0 .. getNumNodes gr - 1]"
    then have "nodeExists gr s" by (simp add: wf_nodeExists [OF assms])
    then have "(s, adjOf gr s) \<in> set (getGraph gr)" by (rule wf_adj_mem [OF assms])
    then show "distinct (map getSink (adjOf gr s))" using assms by (auto simp: wf_graph_def)
  qed
qed

text \<open>
  The invariant of the loops of \<^verbatim>\<open>GetResidualGraph\<close> after the edges \<open>ps\<close> of the input
  graph have been visited: the nodes of the residual graph are \<open>0 .. count - 1\<close>, with one
  artificial node (an id \<open>\<ge> n\<close>) per edge that was split; an edge between two original nodes
  comes from a visited edge and is not the lower direction of an anti-parallel pair; every
  other edge joins an original node and an artificial node, and an artificial node leads
  from a lower node to a higher one; every visited edge of positive capacity is present,
  directly or through its artificial node; an artificial node has at most one outgoing
  edge; the starting number of nodes is the number of nodes of the input graph.
\<close>

definition residual_inv :: "Graph \<Rightarrow> (int \<times> Edge) list \<Rightarrow> Graph \<Rightarrow> bool" where
  "residual_inv graph ps rg \<longleftrightarrow>
     (\<forall>x. nodeExists rg x \<longleftrightarrow> 0 \<le> x \<and> x < getNumNodes rg) \<and>
     getNumNodes rg = getNumNodes graph + int (length (filter (isSplit graph) ps)) \<and>
     (\<forall>s t. lookupEdge rg s t \<noteq> None \<longrightarrow> nodeExists rg t) \<and>
     (\<forall>s t. s < getNumNodes graph \<and> t < getNumNodes graph \<and> lookupEdge rg s t \<noteq> None \<longrightarrow>
        (s, t) \<in> edgeKey ` set ps \<and> \<not> (s < t \<and> lookupEdge graph t s \<noteq> None)) \<and>
     (\<forall>s t. lookupEdge rg s t \<noteq> None \<longrightarrow> s < getNumNodes graph \<or> t < getNumNodes graph) \<and>
     (\<forall>w s t. getNumNodes graph \<le> w \<and> lookupEdge rg s w \<noteq> None \<and> lookupEdge rg w t \<noteq> None
        \<longrightarrow> s < t) \<and>
     (\<forall>p \<in> set ps. 0 < getCapacity (snd p) \<longrightarrow>
        (if isSplit graph p then
           \<exists>w \<ge> getNumNodes graph.
             lookupEdge rg (fst p) w
               = Some (Edge (fst p) w (getCapacity (snd p)) (getWeight (snd p))) \<and>
             lookupEdge rg w (getSink (snd p))
               = Some (Edge w (getSink (snd p)) (getCapacity (snd p)) (getWeight (snd p)))
         else lookupEdge rg (fst p) (getSink (snd p))
               = Some (Edge (fst p) (getSink (snd p)) (getCapacity (snd p)) (getWeight (snd p))))) \<and>
     (\<forall>w. getNumNodes graph \<le> w \<longrightarrow> length (adjOf rg w) \<le> 1) \<and>
     getStartingNumNodes rg = getNumNodes graph"

lemma lookupEdge_source_exists: "lookupEdge gr s t \<noteq> None \<Longrightarrow> nodeExists gr s"
  by (auto simp: lookupEdge_def nodeExists_def split: option.splits)

lemma getNumNodes_nonneg: "0 \<le> getNumNodes gr"
  by (simp add: getNumNodes_def)

lemma map_of_new_Graph:
  "map_of (getGraph (new_Graph n)) x = (if 0 \<le> x \<and> x < n then Some [] else None)"
proof -
  have "map_of (map (\<lambda>i. (i, [] :: Edge list)) xs) x = (if x \<in> set xs then Some [] else None)"
    for xs :: "int list"
    by (induction xs) auto
  then show ?thesis by (simp add: new_Graph_def)
qed

lemma getNumNodes_new_Graph: "0 \<le> n \<Longrightarrow> getNumNodes (new_Graph n) = n"
  by (simp add: getNumNodes_def new_Graph_def)

lemma getStartingNumNodes_new_Graph [simp]: "getStartingNumNodes (new_Graph n) = n"
  by (simp add: new_Graph_def)

lemma adjOf_not_exists: "\<not> nodeExists gr x \<Longrightarrow> adjOf gr x = []"
  by (simp add: nodeExists_def adjOf_def)

lemma adjOf_addEdge:
  "addEdge gr s t c w = Inr g' \<Longrightarrow>
   adjOf g' x = (if x = s then adjOf gr s @ [Edge s t c w] else adjOf gr x)"
  by (auto simp: addEdge_Inr_iff adjOf_setAdj adjOf_ensureNode)

lemma getStartingNumNodes_ensureNode [simp]:
  "getStartingNumNodes (ensureNode gr n) = getStartingNumNodes gr"
  by (simp add: ensureNode_def)

lemma getStartingNumNodes_addEdge:
  "addEdge gr s t c w = Inr g' \<Longrightarrow> getStartingNumNodes g' = getStartingNumNodes gr"
  by (auto simp: addEdge_Inr_iff)

lemma residual_inv_initial: "residual_inv graph [] (new_Graph (getNumNodes graph))"
  by (simp add: residual_inv_def nodeExists_def lookupEdge_def map_of_new_Graph
      getNumNodes_new_Graph getNumNodes_nonneg findEdge_def adjOf_def)

lemma ResidualAddEdge_unfold:
  assumes "nodeExists graph s" "nodeExists graph (getSink e)"
  shows "ResidualAddEdge graph s rg e =
     (if getCapacity e \<le> 0 then Inr rg
      else if isSplit graph (s, e) then
        bindE (addEdge rg s (getNumNodes rg) (getCapacity e) (getWeight e)) (\<lambda>g1.
          addEdge g1 (getNumNodes rg) (getSink e) (getCapacity e) (getWeight e))
      else addEdge rg s (getSink e) (getCapacity e) (getWeight e))"
  using assms by (simp add: ResidualAddEdge_def Let_def hasEdge_def isSplit_def)

lemma residual_invD:
  assumes "residual_inv graph ps rg"
  shows "\<And>x. nodeExists rg x \<longleftrightarrow> 0 \<le> x \<and> x < getNumNodes rg"
    and "getNumNodes rg = getNumNodes graph + int (length (filter (isSplit graph) ps))"
    and "\<And>a b. lookupEdge rg a b \<noteq> None \<Longrightarrow> nodeExists rg b"
    and "\<And>a b. a < getNumNodes graph \<Longrightarrow> b < getNumNodes graph \<Longrightarrow> lookupEdge rg a b \<noteq> None \<Longrightarrow>
        (a, b) \<in> edgeKey ` set ps \<and> \<not> (a < b \<and> lookupEdge graph b a \<noteq> None)"
    and "\<And>a b. lookupEdge rg a b \<noteq> None \<Longrightarrow> a < getNumNodes graph \<or> b < getNumNodes graph"
    and "\<And>w a b. getNumNodes graph \<le> w \<Longrightarrow> lookupEdge rg a w \<noteq> None \<Longrightarrow>
        lookupEdge rg w b \<noteq> None \<Longrightarrow> a < b"
    and "\<And>p. p \<in> set ps \<Longrightarrow> 0 < getCapacity (snd p) \<Longrightarrow>
        (if isSplit graph p then
           \<exists>w \<ge> getNumNodes graph.
             lookupEdge rg (fst p) w
               = Some (Edge (fst p) w (getCapacity (snd p)) (getWeight (snd p))) \<and>
             lookupEdge rg w (getSink (snd p))
               = Some (Edge w (getSink (snd p)) (getCapacity (snd p)) (getWeight (snd p)))
         else lookupEdge rg (fst p) (getSink (snd p))
               = Some (Edge (fst p) (getSink (snd p)) (getCapacity (snd p)) (getWeight (snd p))))"
    and "\<And>w. getNumNodes graph \<le> w \<Longrightarrow> length (adjOf rg w) \<le> 1"
    and "getStartingNumNodes rg = getNumNodes graph"
  using assms unfolding residual_inv_def by blast+

lemma residual_invI:
  assumes "\<And>x. nodeExists rg x \<longleftrightarrow> 0 \<le> x \<and> x < getNumNodes rg"
    and "getNumNodes rg = getNumNodes graph + int (length (filter (isSplit graph) ps))"
    and "\<And>a b. lookupEdge rg a b \<noteq> None \<Longrightarrow> nodeExists rg b"
    and "\<And>a b. a < getNumNodes graph \<Longrightarrow> b < getNumNodes graph \<Longrightarrow> lookupEdge rg a b \<noteq> None \<Longrightarrow>
        (a, b) \<in> edgeKey ` set ps \<and> \<not> (a < b \<and> lookupEdge graph b a \<noteq> None)"
    and "\<And>a b. lookupEdge rg a b \<noteq> None \<Longrightarrow> a < getNumNodes graph \<or> b < getNumNodes graph"
    and "\<And>w a b. getNumNodes graph \<le> w \<Longrightarrow> lookupEdge rg a w \<noteq> None \<Longrightarrow>
        lookupEdge rg w b \<noteq> None \<Longrightarrow> a < b"
    and "\<And>p. p \<in> set ps \<Longrightarrow> 0 < getCapacity (snd p) \<Longrightarrow>
        (if isSplit graph p then
           \<exists>w \<ge> getNumNodes graph.
             lookupEdge rg (fst p) w
               = Some (Edge (fst p) w (getCapacity (snd p)) (getWeight (snd p))) \<and>
             lookupEdge rg w (getSink (snd p))
               = Some (Edge w (getSink (snd p)) (getCapacity (snd p)) (getWeight (snd p)))
         else lookupEdge rg (fst p) (getSink (snd p))
               = Some (Edge (fst p) (getSink (snd p)) (getCapacity (snd p)) (getWeight (snd p))))"
    and "\<And>w. getNumNodes graph \<le> w \<Longrightarrow> length (adjOf rg w) \<le> 1"
    and "getStartingNumNodes rg = getNumNodes graph"
  shows "residual_inv graph ps rg"
  unfolding residual_inv_def using assms by blast

lemma residual_inv_skip:
  assumes inv: "residual_inv graph ps rg" and c: "\<not> 0 < getCapacity e"
  shows "residual_inv graph (ps @ [(s, e)]) rg"
proof (rule residual_invI)
  note I = residual_invD [OF inv]
  have ns: "\<not> isSplit graph (s, e)" using c by (simp add: isSplit_def)
  show "nodeExists rg x \<longleftrightarrow> 0 \<le> x \<and> x < getNumNodes rg" for x
    by (rule I(1))
  show "getNumNodes rg = getNumNodes graph + int (length (filter (isSplit graph) (ps @ [(s, e)])))"
    using ns by (simp add: I(2))
  show "nodeExists rg b" if "lookupEdge rg a b \<noteq> None" for a b
    using that by (rule I(3))
  show "(a, b) \<in> edgeKey ` set (ps @ [(s, e)]) \<and> \<not> (a < b \<and> lookupEdge graph b a \<noteq> None)"
    if "a < getNumNodes graph" "b < getNumNodes graph" "lookupEdge rg a b \<noteq> None" for a b
    using I(4) [OF that] by simp
  show "a < getNumNodes graph \<or> b < getNumNodes graph" if "lookupEdge rg a b \<noteq> None" for a b
    using that by (rule I(5))
  show "a < b" if "getNumNodes graph \<le> w" "lookupEdge rg a w \<noteq> None" "lookupEdge rg w b \<noteq> None"
    for w a b
    using that by (rule I(6))
  show "if isSplit graph p then
           \<exists>w \<ge> getNumNodes graph.
             lookupEdge rg (fst p) w
               = Some (Edge (fst p) w (getCapacity (snd p)) (getWeight (snd p))) \<and>
             lookupEdge rg w (getSink (snd p))
               = Some (Edge w (getSink (snd p)) (getCapacity (snd p)) (getWeight (snd p)))
         else lookupEdge rg (fst p) (getSink (snd p))
               = Some (Edge (fst p) (getSink (snd p)) (getCapacity (snd p)) (getWeight (snd p)))"
    if "p \<in> set (ps @ [(s, e)])" "0 < getCapacity (snd p)" for p
  proof -
    have "p \<noteq> (s, e)" using that(2) c by auto
    then have "p \<in> set ps" using that(1) by simp
    from I(7) [OF this that(2)] show ?thesis .
  qed
  show "length (adjOf rg w) \<le> 1" if "getNumNodes graph \<le> w" for w
    using that by (rule I(8))
  show "getStartingNumNodes rg = getNumNodes graph"
    by (rule I(9))
qed

lemma residual_inv_direct:
  assumes inv: "residual_inv graph ps rg"
    and s: "s < getNumNodes graph" and t: "0 \<le> getSink e" "getSink e < getNumNodes graph"
    and c: "0 < getCapacity e" and ns: "\<not> isSplit graph (s, e)"
    and L: "\<And>a b. lookupEdge rg' a b
        = (if a = s \<and> b = getSink e then Some (Edge s (getSink e) (getCapacity e) (getWeight e))
           else lookupEdge rg a b)"
    and N: "\<And>x. nodeExists rg' x = nodeExists rg x"
    and C: "getNumNodes rg' = getNumNodes rg"
    and old: "lookupEdge rg s (getSink e) = None"
    and A: "\<And>x. x \<noteq> s \<Longrightarrow> adjOf rg' x = adjOf rg x"
    and S: "getStartingNumNodes rg' = getStartingNumNodes rg"
  shows "residual_inv graph (ps @ [(s, e)]) rg'"
proof (rule residual_invI)
  note I = residual_invD [OF inv]
  have le: "getNumNodes graph \<le> getNumNodes rg" by (simp add: I(2))
  have mono: "lookupEdge rg' a b = Some x" if "lookupEdge rg a b = Some x" for a b x
    using that old by (auto simp: L)
  show "nodeExists rg' x \<longleftrightarrow> 0 \<le> x \<and> x < getNumNodes rg'" for x
    by (simp add: N C I(1))
  show "getNumNodes rg' = getNumNodes graph + int (length (filter (isSplit graph) (ps @ [(s, e)])))"
    using ns by (simp add: C I(2))
  show "nodeExists rg' b" if "lookupEdge rg' a b \<noteq> None" for a b
  proof (cases "a = s \<and> b = getSink e")
    case True
    then show ?thesis using t le by (simp add: N I(1))
  next
    case False
    then have "lookupEdge rg' a b = lookupEdge rg a b" by (auto simp: L)
    then show ?thesis using that I(3) [of a b] by (simp add: N)
  qed
  show "(a, b) \<in> edgeKey ` set (ps @ [(s, e)]) \<and> \<not> (a < b \<and> lookupEdge graph b a \<noteq> None)"
    if "a < getNumNodes graph" "b < getNumNodes graph" "lookupEdge rg' a b \<noteq> None" for a b
  proof (cases "a = s \<and> b = getSink e")
    case True
    then show ?thesis using ns c by (auto simp: isSplit_def edgeKey_def)
  next
    case False
    then show ?thesis using that I(4) [of a b] by (auto simp: L)
  qed
  show "a < getNumNodes graph \<or> b < getNumNodes graph" if "lookupEdge rg' a b \<noteq> None" for a b
    using that I(5) [of a b] s by (auto simp: L split: if_splits)
  show "a < b" if "getNumNodes graph \<le> w" "lookupEdge rg' a w \<noteq> None" "lookupEdge rg' w b \<noteq> None"
    for w a b
  proof -
    have "lookupEdge rg a w \<noteq> None" using that(1,2) t by (auto simp: L split: if_splits)
    moreover have "lookupEdge rg w b \<noteq> None" using that(1,3) s by (auto simp: L split: if_splits)
    ultimately show ?thesis using I(6) [OF that(1)] by blast
  qed
  show "if isSplit graph p then
           \<exists>w \<ge> getNumNodes graph.
             lookupEdge rg' (fst p) w
               = Some (Edge (fst p) w (getCapacity (snd p)) (getWeight (snd p))) \<and>
             lookupEdge rg' w (getSink (snd p))
               = Some (Edge w (getSink (snd p)) (getCapacity (snd p)) (getWeight (snd p)))
         else lookupEdge rg' (fst p) (getSink (snd p))
               = Some (Edge (fst p) (getSink (snd p)) (getCapacity (snd p)) (getWeight (snd p)))"
    if "p \<in> set (ps @ [(s, e)])" "0 < getCapacity (snd p)" for p
  proof (cases "p = (s, e)")
    case True
    then show ?thesis using ns by (simp add: L)
  next
    case False
    then have "p \<in> set ps" using that(1) by simp
    from I(7) [OF this that(2)] show ?thesis
    proof (cases "isSplit graph p")
      case True
      with I(7) [OF \<open>p \<in> set ps\<close> that(2)] obtain w where "getNumNodes graph \<le> w"
        "lookupEdge rg (fst p) w
           = Some (Edge (fst p) w (getCapacity (snd p)) (getWeight (snd p)))"
        "lookupEdge rg w (getSink (snd p))
           = Some (Edge w (getSink (snd p)) (getCapacity (snd p)) (getWeight (snd p)))"
        by auto
      then show ?thesis using True mono by auto
    next
      case False
      with I(7) [OF \<open>p \<in> set ps\<close> that(2)] show ?thesis using mono by simp
    qed
  qed
  show "length (adjOf rg' w) \<le> 1" if "getNumNodes graph \<le> w" for w
  proof -
    have "w \<noteq> s" using that s by simp
    then show ?thesis using I(8) [OF that] by (simp add: A)
  qed
  show "getStartingNumNodes rg' = getNumNodes graph"
    by (simp add: S I(9))
qed

lemma residual_inv_split:
  assumes inv: "residual_inv graph ps rg"
    and s: "0 \<le> s" "s < getNumNodes graph" and t: "0 \<le> getSink e" "getSink e < getNumNodes graph"
    and sp: "isSplit graph (s, e)"
    and L: "\<And>a b. lookupEdge rg' a b
        = (if a = s \<and> b = getNumNodes rg
           then Some (Edge s (getNumNodes rg) (getCapacity e) (getWeight e))
           else if a = getNumNodes rg \<and> b = getSink e
           then Some (Edge (getNumNodes rg) (getSink e) (getCapacity e) (getWeight e))
           else lookupEdge rg a b)"
    and N: "\<And>x. nodeExists rg' x \<longleftrightarrow> x = getNumNodes rg \<or> nodeExists rg x"
    and C: "getNumNodes rg' = getNumNodes rg + 1"
    and A: "\<And>x. x \<noteq> s \<Longrightarrow> adjOf rg' x
        = (if x = getNumNodes rg
           then [Edge (getNumNodes rg) (getSink e) (getCapacity e) (getWeight e)]
           else adjOf rg x)"
    and S: "getStartingNumNodes rg' = getStartingNumNodes rg"
  shows "residual_inv graph (ps @ [(s, e)]) rg'"
proof (rule residual_invI)
  note I = residual_invD [OF inv]
  let ?w = "getNumNodes rg"
  have le: "getNumNodes graph \<le> ?w" by (simp add: I(2))
  have now: "\<not> nodeExists rg ?w" by (simp add: I(1))
  have in_none: "lookupEdge rg a ?w = None" for a
    using I(3) [of a ?w] now by blast
  have out_none: "lookupEdge rg ?w b = None" for b
    using lookupEdge_source_exists [of rg ?w b] now by blast
  have st: "s < getSink e" using sp by (simp add: isSplit_def)
  have mono: "lookupEdge rg' a b = Some x" if "lookupEdge rg a b = Some x" for a b x
    using that in_none [of a] out_none [of b] by (auto simp: L)
  show "nodeExists rg' x \<longleftrightarrow> 0 \<le> x \<and> x < getNumNodes rg'" for x
    using getNumNodes_nonneg [of rg] by (auto simp: N C I(1))
  show "getNumNodes rg' = getNumNodes graph + int (length (filter (isSplit graph) (ps @ [(s, e)])))"
    using sp by (simp add: C I(2))
  show "nodeExists rg' b" if "lookupEdge rg' a b \<noteq> None" for a b
  proof (cases "b = ?w \<or> b = getSink e")
    case True
    then show ?thesis using t le by (auto simp: N I(1))
  next
    case False
    then have "lookupEdge rg' a b = lookupEdge rg a b" by (auto simp: L)
    then show ?thesis using that I(3) [of a b] by (simp add: N)
  qed
  show "(a, b) \<in> edgeKey ` set (ps @ [(s, e)]) \<and> \<not> (a < b \<and> lookupEdge graph b a \<noteq> None)"
    if "a < getNumNodes graph" "b < getNumNodes graph" "lookupEdge rg' a b \<noteq> None" for a b
  proof -
    have "lookupEdge rg a b \<noteq> None" using that le by (auto simp: L split: if_splits)
    then show ?thesis using that I(4) [of a b] by auto
  qed
  show "a < getNumNodes graph \<or> b < getNumNodes graph" if "lookupEdge rg' a b \<noteq> None" for a b
    using that I(5) [of a b] s t by (auto simp: L split: if_splits)
  show "a < b" if "getNumNodes graph \<le> w" "lookupEdge rg' a w \<noteq> None" "lookupEdge rg' w b \<noteq> None"
    for w a b
  proof (cases "w = ?w")
    case True
    have "a = s" using that(2) True in_none [of a] t le by (auto simp: L split: if_splits)
    moreover have "b = getSink e"
      using that(3) True out_none [of b] s le by (auto simp: L split: if_splits)
    ultimately show ?thesis using st by simp
  next
    case False
    have "lookupEdge rg a w \<noteq> None" using that(1,2) False t by (auto simp: L split: if_splits)
    moreover have "lookupEdge rg w b \<noteq> None"
      using that(1,3) False s by (auto simp: L split: if_splits)
    ultimately show ?thesis using I(6) [OF that(1)] by blast
  qed
  show "if isSplit graph p then
           \<exists>w \<ge> getNumNodes graph.
             lookupEdge rg' (fst p) w
               = Some (Edge (fst p) w (getCapacity (snd p)) (getWeight (snd p))) \<and>
             lookupEdge rg' w (getSink (snd p))
               = Some (Edge w (getSink (snd p)) (getCapacity (snd p)) (getWeight (snd p)))
         else lookupEdge rg' (fst p) (getSink (snd p))
               = Some (Edge (fst p) (getSink (snd p)) (getCapacity (snd p)) (getWeight (snd p)))"
    if "p \<in> set (ps @ [(s, e)])" "0 < getCapacity (snd p)" for p
  proof (cases "p = (s, e)")
    case True
    have "lookupEdge rg' s ?w = Some (Edge s ?w (getCapacity e) (getWeight e))"
      by (simp add: L)
    moreover have "lookupEdge rg' ?w (getSink e)
        = Some (Edge ?w (getSink e) (getCapacity e) (getWeight e))"
      using s le by (simp add: L)
    ultimately show ?thesis using True sp le by auto
  next
    case False
    then have "p \<in> set ps" using that(1) by simp
    from I(7) [OF this that(2)] show ?thesis
    proof (cases "isSplit graph p")
      case True
      with I(7) [OF \<open>p \<in> set ps\<close> that(2)] obtain w where "getNumNodes graph \<le> w"
        "lookupEdge rg (fst p) w
           = Some (Edge (fst p) w (getCapacity (snd p)) (getWeight (snd p)))"
        "lookupEdge rg w (getSink (snd p))
           = Some (Edge w (getSink (snd p)) (getCapacity (snd p)) (getWeight (snd p)))"
        by auto
      then show ?thesis using True mono by auto
    next
      case False
      with I(7) [OF \<open>p \<in> set ps\<close> that(2)] show ?thesis using mono by simp
    qed
  qed
  show "length (adjOf rg' w) \<le> 1" if "getNumNodes graph \<le> w" for w
  proof -
    have "w \<noteq> s" using that s by simp
    then show ?thesis using I(8) [OF that] by (simp add: A)
  qed
  show "getStartingNumNodes rg' = getNumNodes graph"
    by (simp add: S I(9))
qed

lemma residual_step:
  assumes wf: "wf_graph graph" and inv: "residual_inv graph ps rg"
    and mem: "(s, e) \<in> set (edgeList graph)" and fresh: "edgeKey (s, e) \<notin> edgeKey ` set ps"
  shows "\<exists>rg'. ResidualAddEdge graph s rg e = Inr rg' \<and> residual_inv graph (ps @ [(s, e)]) rg'"
proof -
  note I = residual_invD [OF inv]
  let ?n = "getNumNodes graph" and ?w = "getNumNodes rg"
  let ?t = "getSink e" and ?c = "getCapacity e" and ?k = "getWeight e"
  from mem have s: "0 \<le> s" "s < ?n" and ad: "e \<in> set (adjOf graph s)"
    by (simp_all add: edgeList_mem)
  from wf_adjOf [OF wf ad] have t: "0 \<le> ?t" "?t < ?n" and c0: "0 \<le> ?c"
    and ns: "nodeExists graph s" by simp_all
  have nt: "nodeExists graph ?t" using t by (simp add: wf_nodeExists [OF wf])
  have le: "?n \<le> ?w" by (simp add: I(2))
  have es: "nodeExists rg s" and et: "nodeExists rg ?t" using s t le by (simp_all add: I(1))
  have now: "\<not> nodeExists rg ?w" by (simp add: I(1))
  note unfold = ResidualAddEdge_unfold [OF ns nt, of rg]
  show ?thesis
  proof (cases "0 < ?c")
    case False
    then show ?thesis using residual_inv_skip [OF inv False, of s] by (simp add: unfold)
  next
    case pos: True
    show ?thesis
    proof (cases "isSplit graph (s, e)")
      case True
      have "lookupEdge rg s ?w = None" using I(3) [of s ?w] now by blast
      then obtain g1 where a1: "addEdge rg s ?w ?c ?k = Inr g1"
        using s c0 getNumNodes_nonneg [of rg] le by (simp add: addEdge_Inr_iff)
      have l1: "lookupEdge g1 a b
          = (if a = s \<and> b = ?w then Some (Edge s ?w ?c ?k) else lookupEdge rg a b)" for a b
        by (rule lookupEdge_addEdge [OF a1])
      have n1: "nodeExists g1 x \<longleftrightarrow> x = ?w \<or> nodeExists rg x" for x
        using es by (auto simp: nodeExists_addEdge [OF a1])
      have c1: "getNumNodes g1 = ?w + 1"
        using es now s le by (simp add: getNumNodes_addEdge [OF a1])
      have "lookupEdge rg ?w ?t = None"
        using lookupEdge_source_exists [of rg ?w ?t] now by blast
      then have "lookupEdge g1 ?w ?t = None" using s le by (simp add: l1)
      then obtain rg' where a2: "addEdge g1 ?w ?t ?c ?k = Inr rg'"
        using t c0 getNumNodes_nonneg [of rg] le by (simp add: addEdge_Inr_iff c1)
      have l2: "lookupEdge rg' a b
          = (if a = s \<and> b = ?w then Some (Edge s ?w ?c ?k)
             else if a = ?w \<and> b = ?t then Some (Edge ?w ?t ?c ?k)
             else lookupEdge rg a b)" for a b
        using s le by (auto simp: lookupEdge_addEdge [OF a2] l1)
      have n2: "nodeExists rg' x \<longleftrightarrow> x = ?w \<or> nodeExists rg x" for x
        using et by (auto simp: nodeExists_addEdge [OF a2] n1)
      have c2: "getNumNodes rg' = ?w + 1"
        using et by (simp add: getNumNodes_addEdge [OF a2] n1 c1)
      have a2': "adjOf rg' x = (if x = ?w then [Edge ?w ?t ?c ?k] else adjOf rg x)"
        if "x \<noteq> s" for x
        using that now by (simp add: adjOf_addEdge [OF a2] adjOf_addEdge [OF a1] adjOf_not_exists)
      have st2: "getStartingNumNodes rg' = getStartingNumNodes rg"
        by (simp add: getStartingNumNodes_addEdge [OF a2] getStartingNumNodes_addEdge [OF a1])
      have "residual_inv graph (ps @ [(s, e)]) rg'"
        by (rule residual_inv_split [OF inv s t True l2 n2 c2 a2' st2])
      moreover have "ResidualAddEdge graph s rg e = Inr rg'"
        using pos True a1 a2 by (simp add: unfold)
      ultimately show ?thesis by blast
    next
      case False
      have old: "lookupEdge rg s ?t = None"
      proof (rule ccontr)
        assume "lookupEdge rg s ?t \<noteq> None"
        from I(4) [OF s(2) t(2) this] have "(s, ?t) \<in> edgeKey ` set ps" by simp
        then show False using fresh by (simp add: edgeKey_def)
      qed
      then obtain rg' where a: "addEdge rg s ?t ?c ?k = Inr rg'"
        using s t c0 le by (simp add: addEdge_Inr_iff)
      have l: "lookupEdge rg' a b
          = (if a = s \<and> b = ?t then Some (Edge s ?t ?c ?k) else lookupEdge rg a b)" for a b
        by (rule lookupEdge_addEdge [OF a])
      have n: "nodeExists rg' x = nodeExists rg x" for x
        using es et by (auto simp: nodeExists_addEdge [OF a])
      have cnt: "getNumNodes rg' = ?w"
        using es et by (simp add: getNumNodes_addEdge [OF a])
      have adj: "adjOf rg' x = adjOf rg x" if "x \<noteq> s" for x
        using that by (simp add: adjOf_addEdge [OF a])
      have st: "getStartingNumNodes rg' = getStartingNumNodes rg"
        by (rule getStartingNumNodes_addEdge [OF a])
      have "residual_inv graph (ps @ [(s, e)]) rg'"
        by (rule residual_inv_direct [OF inv s(2) t pos False l n cnt old adj st])
      moreover have "ResidualAddEdge graph s rg e = Inr rg'"
        using pos False a by (simp add: unfold)
      ultimately show ?thesis by blast
    qed
  qed
qed

lemma residual_fold:
  assumes wf: "wf_graph graph"
  shows "residual_inv graph ps rg \<Longrightarrow> set xs \<subseteq> set (edgeList graph) \<Longrightarrow>
    distinct (map edgeKey (ps @ xs)) \<Longrightarrow>
    \<exists>r. foldE (\<lambda>rg (s, e). ResidualAddEdge graph s rg e) xs rg = Inr r
       \<and> residual_inv graph (ps @ xs) r"
proof (induction xs arbitrary: ps rg)
  case Nil
  then show ?case by simp
next
  case (Cons x xs)
  obtain s e where x: "x = (s, e)" by (cases x)
  have mem: "(s, e) \<in> set (edgeList graph)" using Cons.prems(2) x by simp
  have fresh: "edgeKey (s, e) \<notin> edgeKey ` set ps" using Cons.prems(3) x by auto
  from residual_step [OF wf Cons.prems(1) mem fresh] obtain rg1
    where 1: "ResidualAddEdge graph s rg e = Inr rg1"
      and 2: "residual_inv graph (ps @ [(s, e)]) rg1" by blast
  have "\<exists>r. foldE (\<lambda>rg (s, e). ResidualAddEdge graph s rg e) xs rg1 = Inr r
       \<and> residual_inv graph ((ps @ [(s, e)]) @ xs) r"
    using Cons.prems(2,3) x by (intro Cons.IH [OF 2]) simp_all
  then show ?case using 1 x by simp
qed

lemma GetResidualGraph_invariant:
  assumes wf: "wf_graph graph"
  shows "\<exists>r. GetResidualGraph graph = Inr r \<and> residual_inv graph (edgeList graph) r"
  using residual_fold [OF wf residual_inv_initial, of "edgeList graph"]
    wf_distinct_edgeList [OF wf]
  by (simp add: GetResidualGraph_flat [OF wf])

lemma Edge_collapse: "Edge (getSource e) (getSink e) (getCapacity e) (getWeight e) = e"
  by (cases e) simp

text \<open>
  Claim C7. For every well-formed input graph \<^verbatim>\<open>GetResidualGraph\<close> returns a residual
  graph that has no two distinct nodes joined in both directions. An edge \<open>u \<rightarrow> v\<close> of
  positive capacity with \<open>u < v\<close> whose reverse \<open>v \<rightarrow> u\<close> exists is not copied; instead an
  artificial node \<open>w\<close> bridges it by \<open>u \<rightarrow> w\<close> and \<open>w \<rightarrow> v\<close>. Every other edge of positive
  capacity is copied unchanged, in particular the direction \<open>v \<rightarrow> u\<close> of the pair. Only the
  lower-indexed direction triggers the split: there is exactly one artificial node per
  such edge.
\<close>

theorem GetResidualGraph_no_antiparallel:
  assumes wf: "wf_graph graph"
  shows "\<exists>r. GetResidualGraph graph = Inr r \<and>
     (\<forall>u v. u \<noteq> v \<longrightarrow> lookupEdge r u v = None \<or> lookupEdge r v u = None) \<and>
     (\<forall>u v e. lookupEdge graph u v = Some e \<and> 0 < getCapacity e \<longrightarrow>
        (if u < v \<and> lookupEdge graph v u \<noteq> None
         then lookupEdge r u v = None \<and>
           (\<exists>w \<ge> getNumNodes graph.
              lookupEdge r u w = Some (Edge u w (getCapacity e) (getWeight e)) \<and>
              lookupEdge r w v = Some (Edge w v (getCapacity e) (getWeight e)))
         else lookupEdge r u v = Some e)) \<and>
     getNumNodes r
       = getNumNodes graph + int (length (filter (isSplit graph) (edgeList graph)))"
proof -
  from GetResidualGraph_invariant [OF wf] obtain r where r: "GetResidualGraph graph = Inr r"
    and inv: "residual_inv graph (edgeList graph) r" by blast
  note I = residual_invD [OF inv]
  let ?n = "getNumNodes graph"
  have key: "lookupEdge graph a b \<noteq> None" if "(a, b) \<in> edgeKey ` set (edgeList graph)" for a b
  proof -
    from that obtain e where "(a, e) \<in> set (edgeList graph)" "getSink e = b"
      by (auto simp: edgeKey_def)
    then show ?thesis using wf_edgeList_lookup [OF wf, of a e] by auto
  qed
  have 1: "lookupEdge r u v = None \<or> lookupEdge r v u = None" if "u \<noteq> v" for u v
  proof (rule ccontr)
    assume "\<not> (lookupEdge r u v = None \<or> lookupEdge r v u = None)"
    then have a: "lookupEdge r u v \<noteq> None" and b: "lookupEdge r v u \<noteq> None" by simp_all
    show False
    proof (cases "u < ?n \<and> v < ?n")
      case True
      from I(4) [of u v] True a have uv: "(u, v) \<in> edgeKey ` set (edgeList graph)"
        "\<not> (u < v \<and> lookupEdge graph v u \<noteq> None)" by simp_all
      from I(4) [of v u] True b have vu: "(v, u) \<in> edgeKey ` set (edgeList graph)"
        "\<not> (v < u \<and> lookupEdge graph u v \<noteq> None)" by simp_all
      from key [OF uv(1)] key [OF vu(1)] uv(2) vu(2) that show False by auto
    next
      case False
      then consider "?n \<le> u" | "?n \<le> v" by linarith
      then show False
      proof cases
        case 1
        from I(6) [OF 1 b a] show False by simp
      next
        case 2
        from I(6) [OF 2 a b] show False by simp
      qed
    qed
  qed
  have 2: "if u < v \<and> lookupEdge graph v u \<noteq> None
         then lookupEdge r u v = None \<and>
           (\<exists>w \<ge> ?n.
              lookupEdge r u w = Some (Edge u w (getCapacity e) (getWeight e)) \<and>
              lookupEdge r w v = Some (Edge w v (getCapacity e) (getWeight e)))
         else lookupEdge r u v = Some e"
    if "lookupEdge graph u v = Some e" "0 < getCapacity e" for u v e
  proof -
    from lookupEdge_edgeList [OF wf that(1)] have mem: "(u, e) \<in> set (edgeList graph)"
      and sink: "getSink e = v" by simp_all
    from wf_edge [OF wf that(1)] have src: "getSource e = u"
      and ex: "nodeExists graph u" "nodeExists graph v" by simp_all
    then have rng: "u < ?n" "v < ?n" by (simp_all add: wf_nodeExists [OF wf])
    have sp: "isSplit graph (u, e) \<longleftrightarrow> u < v \<and> lookupEdge graph v u \<noteq> None"
      using that(2) sink by (simp add: isSplit_def)
    have split_case: "\<exists>w \<ge> ?n.
              lookupEdge r u w = Some (Edge u w (getCapacity e) (getWeight e)) \<and>
              lookupEdge r w (getSink e) = Some (Edge w (getSink e) (getCapacity e) (getWeight e))"
      if "isSplit graph (u, e)"
      using I(7) [OF mem] \<open>0 < getCapacity e\<close> that by simp
    have direct_case: "lookupEdge r u (getSink e)
        = Some (Edge u (getSink e) (getCapacity e) (getWeight e))"
      if "\<not> isSplit graph (u, e)"
      using I(7) [OF mem] \<open>0 < getCapacity e\<close> that by simp
    show ?thesis
    proof (cases "u < v \<and> lookupEdge graph v u \<noteq> None")
      case True
      have "lookupEdge r u v = None"
        using I(4) [OF rng] True by blast
      moreover have "\<exists>w \<ge> ?n.
              lookupEdge r u w = Some (Edge u w (getCapacity e) (getWeight e)) \<and>
              lookupEdge r w v = Some (Edge w v (getCapacity e) (getWeight e))"
        using split_case True sp sink by simp
      ultimately show ?thesis using True by simp
    next
      case False
      have "lookupEdge r u v = Some (Edge u v (getCapacity e) (getWeight e))"
        using direct_case False sp sink by simp
      moreover have "Edge u v (getCapacity e) (getWeight e) = e"
        using Edge_collapse [of e] src sink by simp
      ultimately show ?thesis using False by simp
    qed
  qed
  from r 1 2 I(2) show ?thesis by blast
qed

lemma lookup_antiparallel_residual:
  "lookupEdge antiparallel_residual 0 1 = None"
  "lookupEdge antiparallel_residual 1 0 = Some (Edge 1 0 1 1)"
  "lookupEdge antiparallel_residual 0 2 = Some (Edge 0 2 1 1)"
  "lookupEdge antiparallel_residual 2 1 = Some (Edge 2 1 1 1)"
  by (simp_all add: antiparallel_residual_def lookupEdge_def findEdge_def)

lemma wf_antiparallel_graph: "wf_graph antiparallel_graph"
  by (simp add: wf_graph_def antiparallel_graph_def getNumNodes_def upto_0_1)

theorem GetResidualGraph_no_antiparallel_witness:
  "wf_graph antiparallel_graph
   \<and> GetResidualGraph antiparallel_graph = Inr antiparallel_residual
   \<and> lookupEdge antiparallel_residual 0 1 = None
   \<and> lookupEdge antiparallel_residual 0 2 = Some (Edge 0 2 1 1)
   \<and> lookupEdge antiparallel_residual 2 1 = Some (Edge 2 1 1 1)
   \<and> getNumNodes antiparallel_residual = 3"
  using GetResidualGraph_no_antiparallel [OF wf_antiparallel_graph] GetResidualGraph_antiparallel
  by (simp add: wf_antiparallel_graph lookup_antiparallel_residual)
     (simp add: antiparallel_residual_def getNumNodes_def)

section \<open>The artificial-node map\<close>

lemma getArtificialNodesMap_ensureNode [simp]:
  "getArtificialNodesMap (ensureNode gr n) = getArtificialNodesMap gr"
  by (simp add: ensureNode_def)













subsection \<open>A split edge that is not saturated\<close>

text \<open>
  \<^verbatim>\<open>GetOptimalGraph\<close> reads the first edge of the artificial node as "the only edge of the
  artificial node". The node has two edges when the split edge carries flow without being
  saturated. In the graph below the split edge \<open>0 \<rightarrow> 3 \<rightarrow> 1\<close> carries one of its two units;
  the artificial node 3 keeps \<open>3 \<rightarrow> 1\<close> as its first edge, and \<^verbatim>\<open>GetOptimalGraph\<close> reports
  the unit of flow on a self-loop \<open>1 \<rightarrow> 1\<close> and the flow 0 on \<open>0 \<rightarrow> 1\<close>.
\<close>

definition unsaturated_graph :: Graph where
  "unsaturated_graph =
     Graph 3 [(0, [Edge 0 1 2 1]), (1, [Edge 1 0 1 1, Edge 1 2 1 1]), (2, [])] []"

definition unsaturated_residual :: Graph where
  "unsaturated_residual =
     Graph 3 [(0, [Edge 0 3 2 1]), (1, [Edge 1 0 1 1, Edge 1 2 1 1]), (2, []),
              (3, [Edge 3 1 2 1])] []"

definition unsaturated_final :: Graph where
  "unsaturated_final =
     Graph 3 [(0, [Edge 0 3 1 1]), (1, [Edge 1 0 1 1, Edge 1 3 1 (- 1)]),
              (2, [Edge 2 1 1 (- 1)]), (3, [Edge 3 1 1 1, Edge 3 0 1 (- 1)])] []"

lemma upto_0_2: "[0 .. 2 :: int] = [0, 1, 2]"
  by (simp add: upto.simps)

lemma GetResidualGraph_unsaturated:
  "GetResidualGraph unsaturated_graph = Inr unsaturated_residual"
  by (simp add: GetResidualGraph_def ResidualAddNode_def ResidualAddEdge_def
      unsaturated_graph_def unsaturated_residual_def graph_eval upto_0_2)

lemma SendFlowInPath_unsaturated:
  "SendFlowInPath unsaturated_residual [0, 3, 1, 2] 1 = Inr unsaturated_final"
  by (simp add: SendFlowInPath_foldE pairs_def SendFlowInEdge_def unsaturated_residual_def
      unsaturated_final_def graph_eval)

lemma GetOptimalGraph_unsaturated:
  "GetOptimalGraph unsaturated_final unsaturated_graph
     = Inr (Graph 3 [(0, [Edge 0 1 0 1]), (1, [Edge 1 1 1 1, Edge 1 2 1 1, Edge 1 0 0 1]),
                     (2, [])] [])"
  by (simp add: GetOptimalGraph_def OptimalAddNode_def OptimalAddEdge_def OptimalAddZeroNode_def
      OptimalAddZero_def unsaturated_final_def unsaturated_graph_def graph_eval upto_0_2
      vec_at_def)

section \<open>The run on the anti-parallel pair\<close>

lemma bfs_antiparallel_residual:
  "bfs antiparallel_residual 0 = Inr ([0, 2, 1], [- 1, 2, 0])"
  by (simp add: bfs_def bfsLoop.simps antiparallel_residual_def getNodeAdjList_def
      getNumNodes_def bfsVisit_step eval_nat_numeral)

lemma RetrievePath_antiparallel: "RetrievePath [- 1, 2, 0] 1 = Inr [0, 2, 1]"
  by (simp add: RetrievePath_def RetrievePathLoop.simps vec_at_def)

lemma GetResidualCapacity_antiparallel:
  "GetResidualCapacity antiparallel_residual [0, 2, 1] = Inr 1"
  by (simp add: GetResidualCapacity_def GetResidualCapacityLoop_pairs [of 0, simplified]
      antiparallel_residual_def graph_eval INT_MAX_def)

lemma bfs_antiparallel_final:
  "bfs antiparallel_final 0 = Inr ([0], [- 1, - 1, - 1])"
  by (simp add: bfs_def bfsLoop.simps antiparallel_final_def getNodeAdjList_def
      getNumNodes_def bfsVisit_step eval_nat_numeral)

lemma EdmondsKarp_antiparallel:
  "EdmondsKarp antiparallel_graph 0 1 = Some (Inr (antiparallel_final, 1))"
  by (simp add: EdmondsKarp_def GetResidualGraph_antiparallel EdmondsKarpLoop.simps
      bfs_antiparallel_residual RetrievePath_antiparallel GetResidualCapacity_antiparallel
      SendFlowInPath_antiparallel bfs_antiparallel_final)

lemma edgeList_antiparallel_final:
  "edgeList antiparallel_final = [(1, Edge 1 0 1 1), (1, Edge 1 2 1 (- 1)), (2, Edge 2 0 1 (- 1))]"
  by (simp add: edgeList_def antiparallel_final_def getNumNodes_def adjOf_def upto.simps)

lemma BellmanFord_antiparallel_final:
  "BellmanFord antiparallel_final 0 = Inr (False, [])"
  by (simp add: BellmanFord_def edgeList_antiparallel_final relaxEdge_def improves_def)
     (simp add: antiparallel_final_def getNumNodes_def eval_nat_numeral relaxEdge_def improves_def)

lemma MinimumCost_antiparallel_final: "MinimumCost antiparallel_final = Inr 2"
  by (simp add: MinimumCost_def antiparallel_final_def getNumNodes_def getNodeAdjList_def
      addEdgeCost_def int32_def upto.simps)

lemma CycleCancelling_antiparallel:
  "CycleCancelling antiparallel_graph = Some (Inr (antiparallel_final, 2))"
proof -
  have "getNumNodes antiparallel_graph - 1 = 1"
    by (simp add: antiparallel_graph_def getNumNodes_def)
  then show ?thesis
    by (simp add: CycleCancelling_def EdmondsKarp_antiparallel CancelLoop.simps
        BellmanFord_antiparallel_final MinimumCost_antiparallel_final)
qed

lemma GetOptimalGraph_antiparallel:
  "GetOptimalGraph antiparallel_final antiparallel_graph
     = Inr (Graph 2 [(0, [Edge 0 1 1 1]), (1, [Edge 1 0 0 1])] [])"
  by (simp add: GetOptimalGraph_def OptimalAddNode_def OptimalAddEdge_def OptimalAddZeroNode_def
      OptimalAddZero_def antiparallel_final_def antiparallel_graph_def graph_eval upto_0_1
      vec_at_def)

section \<open>The cost reported by CycleCancelling\<close>

text \<open>The sum of \<open>(-cost) * capacity\<close> over the negative-cost edges of a graph.\<close>

definition negativeCostSum :: "Graph \<Rightarrow> int" where
  "negativeCostSum rg =
     (\<Sum>p \<leftarrow> filter (\<lambda>p. getWeight (snd p) < 0) (edgeList rg).
        - getWeight (snd p) * getCapacity (snd p))"

lemma addEdgeCost_int32: "int32 c = c \<Longrightarrow> int32 (addEdgeCost e c) = addEdgeCost e c"
  by (simp add: addEdgeCost_def int32_int32)

lemma addEdgeCost_mod:
  "addEdgeCost e c mod 4294967296
     = (c + (if getWeight e < 0 then - getWeight e * getCapacity e else 0)) mod 4294967296"
proof (cases "getWeight e < 0")
  case True
  have "int32 (- getWeight e) * getCapacity e mod 4294967296
      = - getWeight e * getCapacity e mod 4294967296"
    by (rule mod_mult_cong [OF int32_mod refl])
  then have "int32 (int32 (- getWeight e) * getCapacity e) mod 4294967296
      = - getWeight e * getCapacity e mod 4294967296"
    by (simp only: int32_mod)
  then have "(c + int32 (int32 (- getWeight e) * getCapacity e)) mod 4294967296
      = (c + - getWeight e * getCapacity e) mod 4294967296"
    by (rule mod_add_cong [OF refl])
  then show ?thesis using True by (simp only: addEdgeCost_def int32_mod if_True)
next
  case False
  then show ?thesis by (simp add: addEdgeCost_def)
qed

lemma fold_addEdgeCost:
  "int32 c = c \<Longrightarrow>
   int32 (fold addEdgeCost es c) = fold addEdgeCost es c \<and>
   fold addEdgeCost es c mod 4294967296
     = (c + (\<Sum>e \<leftarrow> filter (\<lambda>e. getWeight e < 0) es. - getWeight e * getCapacity e))
         mod 4294967296"
proof (induction es arbitrary: c)
  case Nil
  then show ?case by simp
next
  case (Cons e es)
  let ?s = "\<Sum>e \<leftarrow> filter (\<lambda>e. getWeight e < 0) es. - getWeight e * getCapacity e"
  let ?d = "if getWeight e < 0 then - getWeight e * getCapacity e else 0"
  have i: "int32 (addEdgeCost e c) = addEdgeCost e c"
    using Cons.prems by (rule addEdgeCost_int32)
  from Cons.IH [OF i] have 1: "int32 (fold addEdgeCost es (addEdgeCost e c))
      = fold addEdgeCost es (addEdgeCost e c)"
    and 2: "fold addEdgeCost es (addEdgeCost e c) mod 4294967296
      = (addEdgeCost e c + ?s) mod 4294967296"
    by simp_all
  have "(addEdgeCost e c + ?s) mod 4294967296 = (c + ?d + ?s) mod 4294967296"
    by (rule mod_add_cong [OF addEdgeCost_mod refl])
  also have "c + ?d + ?s
      = c + (\<Sum>e \<leftarrow> filter (\<lambda>e. getWeight e < 0) (e # es). - getWeight e * getCapacity e)"
    by simp
  finally show ?case using 1 2 by simp
qed

lemma MinimumCost_sum:
  "foldE (\<lambda>minimum_cost u.
            bindE (getNodeAdjList rg u) (\<lambda>adj. Inr (fold addEdgeCost adj minimum_cost))) us c0
     = Inr c \<Longrightarrow> int32 c0 = c0 \<Longrightarrow>
   int32 c = c \<and>
   c mod 4294967296
     = (c0 + (\<Sum>e \<leftarrow> filter (\<lambda>e. getWeight e < 0) (concat (map (adjOf rg) us)).
               - getWeight e * getCapacity e)) mod 4294967296"
proof (induction us arbitrary: c0)
  case Nil
  then show ?case by simp
next
  case (Cons u us)
  from Cons.prems(1) obtain adj where a: "getNodeAdjList rg u = Inr adj"
    and r: "foldE (\<lambda>minimum_cost u.
            bindE (getNodeAdjList rg u) (\<lambda>adj. Inr (fold addEdgeCost adj minimum_cost))) us
          (fold addEdgeCost adj c0) = Inr c"
    by (cases "getNodeAdjList rg u") (simp_all split: sum.splits)
  from a have adj: "adjOf rg u = adj"
    by (simp add: getNodeAdjList_def adjOf_def split: option.splits)
  let ?s1 = "\<Sum>e \<leftarrow> filter (\<lambda>e. getWeight e < 0) adj. - getWeight e * getCapacity e"
  let ?s2 = "\<Sum>e \<leftarrow> filter (\<lambda>e. getWeight e < 0) (concat (map (adjOf rg) us)).
               - getWeight e * getCapacity e"
  from fold_addEdgeCost [OF Cons.prems(2), of adj]
  have f1: "int32 (fold addEdgeCost adj c0) = fold addEdgeCost adj c0"
    and f2: "fold addEdgeCost adj c0 mod 4294967296 = (c0 + ?s1) mod 4294967296"
    by simp_all
  from Cons.IH [OF r f1] have 1: "int32 c = c"
    and 2: "c mod 4294967296 = (fold addEdgeCost adj c0 + ?s2) mod 4294967296"
    by simp_all
  have "(fold addEdgeCost adj c0 + ?s2) mod 4294967296 = (c0 + ?s1 + ?s2) mod 4294967296"
    by (rule mod_add_cong [OF f2 refl])
  also have "c0 + ?s1 + ?s2
      = c0 + (\<Sum>e \<leftarrow> filter (\<lambda>e. getWeight e < 0) (concat (map (adjOf rg) (u # us))).
               - getWeight e * getCapacity e)"
    by (simp add: adj)
  finally show ?case using 1 2 by simp
qed

lemma filter_edgeList_snd:
  "map snd (filter (\<lambda>p. P (snd p)) (concat (map (\<lambda>s. map (Pair s) (adjOf rg s)) us)))
     = filter P (concat (map (adjOf rg) us))"
  by (induction us) (simp_all add: filter_map comp_def)

lemma MinimumCost_negativeCostSum:
  assumes "MinimumCost rg = Inr c"
  shows "c = int32 (negativeCostSum rg)"
proof -
  have "(\<Sum>p \<leftarrow> filter (\<lambda>p. getWeight (snd p) < 0) (edgeList rg).
        - getWeight (snd p) * getCapacity (snd p))
      = (\<Sum>e \<leftarrow> map snd (filter (\<lambda>p. getWeight (snd p) < 0) (edgeList rg)).
        - getWeight e * getCapacity e)"
    by (simp add: comp_def)
  also have "\<dots> = (\<Sum>e \<leftarrow> filter (\<lambda>e. getWeight e < 0)
        (concat (map (adjOf rg) [0 .. getNumNodes rg - 1])). - getWeight e * getCapacity e)"
    unfolding edgeList_def filter_edgeList_snd [of "\<lambda>e. getWeight e < 0"] ..
  finally have s: "negativeCostSum rg = (\<Sum>e \<leftarrow> filter (\<lambda>e. getWeight e < 0)
        (concat (map (adjOf rg) [0 .. getNumNodes rg - 1])). - getWeight e * getCapacity e)"
    by (simp add: negativeCostSum_def)
  have z: "int32 0 = 0" by (simp add: int32_def)
  from MinimumCost_sum [of rg "[0 .. getNumNodes rg - 1]" 0 c, OF _ z] assms
  have 1: "int32 c = c" and 2: "c mod 4294967296 = negativeCostSum rg mod 4294967296"
    by (simp_all add: MinimumCost_def s)
  from int32_cong [OF 2] 1 show ?thesis by simp
qed

lemma CancelLoop_final:
  assumes "CancelLoop rg0 src = Some res"
  shows "\<forall>rg. res = Inr rg \<longrightarrow> (\<exists>cycle. BellmanFord rg src = Inr (False, cycle))"
proof (rule CancelLoop.raw_induct
    [where P = "\<lambda>rg0 src res. \<forall>rg. res = Inr rg \<longrightarrow> (\<exists>cycle. BellmanFord rg src = Inr (False, cycle))",
      OF _ assms])
  fix loop :: "Graph \<Rightarrow> int \<Rightarrow> (error + Graph) option"
    and residual_graph source and y :: "error + Graph"
  assume IH: "\<And>g s y. loop g s = Some y \<Longrightarrow>
      \<forall>rg. y = Inr rg \<longrightarrow> (\<exists>cycle. BellmanFord rg s = Inr (False, cycle))"
    and eq: "(case BellmanFord residual_graph source of
        Inl e \<Rightarrow> Some (Inl e)
      | Inr (hasNegativeCycle, negative_cycle) \<Rightarrow>
          if \<not> hasNegativeCycle then Some (Inr residual_graph)
          else
            (case GetResidualCapacity residual_graph negative_cycle of
               Inl e \<Rightarrow> Some (Inl e)
             | Inr residual_capacity \<Rightarrow>
                 (case SendFlowInPath residual_graph negative_cycle residual_capacity of
                    Inl e \<Rightarrow> Some (Inl e)
                  | Inr g' \<Rightarrow> loop g' source))) = Some y"
  show "\<forall>rg. y = Inr rg \<longrightarrow> (\<exists>cycle. BellmanFord rg source = Inr (False, cycle))"
  proof (cases "BellmanFord residual_graph source")
    case (Inl e)
    then show ?thesis using eq by auto
  next
    case (Inr r)
    note bf = this
    obtain has cyc where r: "r = (has, cyc)" by (cases r)
    show ?thesis
    proof (cases has)
      case False
      then show ?thesis using eq bf r by auto
    next
      case True
      note has = this
      show ?thesis
      proof (cases "GetResidualCapacity residual_graph cyc")
        case (Inl e)
        then show ?thesis using eq bf r has by auto
      next
        case (Inr cap)
        note c = this
        show ?thesis
        proof (cases "SendFlowInPath residual_graph cyc cap")
          case (Inl e)
          then show ?thesis using eq bf r has c by auto
        next
          case (Inr g')
          then have "loop g' source = Some y"
            using eq bf r has c by simp
          then show ?thesis by (rule IH)
        qed
      qed
    qed
  qed
qed

text \<open>
  Claim C5. The minimum cost that \<^verbatim>\<open>CycleCancelling\<close> reports is the sum, over every
  negative-cost edge of the final residual graph, of \<open>(-cost) * capacity\<close>, computed in
  \<^verbatim>\<open>int\<close>: it is the exact sum whenever that sum lies between \<open>INT_MIN\<close> and \<open>INT_MAX\<close>,
  and in every case the exact sum reduced modulo \<open>2^32\<close> into that range. The final residual
  graph is the one on which Bellman-Ford reports no negative cycle.
\<close>

theorem CycleCancelling_minimum_cost:
  "CycleCancelling graph = Some (Inr (rg, minimum_cost)) \<longrightarrow>
     minimum_cost = int32 (negativeCostSum rg)
     \<and> (INT_MIN \<le> negativeCostSum rg \<and> negativeCostSum rg \<le> INT_MAX \<longrightarrow>
          minimum_cost = negativeCostSum rg)
     \<and> (\<exists>cycle. BellmanFord rg 0 = Inr (False, cycle))"
proof
  assume a: "CycleCancelling graph = Some (Inr (rg, minimum_cost))"
  then obtain rg0 max_flow where "EdmondsKarp graph 0 (getNumNodes graph - 1)
      = Some (Inr (rg0, max_flow))"
    and l: "CancelLoop rg0 0 = Some (Inr rg)" and m: "MinimumCost rg = Inr minimum_cost"
    by (auto simp: CycleCancelling_def Let_def bindE_Inr_iff split: option.splits sum.splits)
  from CancelLoop_final [OF l] MinimumCost_negativeCostSum [OF m]
  show "minimum_cost = int32 (negativeCostSum rg)
     \<and> (INT_MIN \<le> negativeCostSum rg \<and> negativeCostSum rg \<le> INT_MAX \<longrightarrow>
          minimum_cost = negativeCostSum rg)
     \<and> (\<exists>cycle. BellmanFord rg 0 = Inr (False, cycle))"
    by (simp add: int32_id)
qed

text \<open>The example of the specification: four nodes, maximum flow 2, minimum cost 6.\<close>

definition spec_example :: Graph where
  "spec_example =
     Graph 4 [(0, [Edge 0 1 2 1, Edge 0 2 1 2]), (1, [Edge 1 3 1 2]), (2, [Edge 2 3 2 1]),
              (3, [])] []"

definition spec_example_1 :: Graph where
  "spec_example_1 =
     Graph 4 [(0, [Edge 0 1 1 1, Edge 0 2 1 2]), (1, [Edge 1 0 1 (- 1)]), (2, [Edge 2 3 2 1]),
              (3, [Edge 3 1 1 (- 2)])] []"

definition spec_example_2 :: Graph where
  "spec_example_2 =
     Graph 4 [(0, [Edge 0 1 1 1]), (1, [Edge 1 0 1 (- 1)]),
              (2, [Edge 2 3 1 1, Edge 2 0 1 (- 2)]),
              (3, [Edge 3 1 1 (- 2), Edge 3 2 1 (- 1)])] []"

lemma upto_0_3: "[0 .. 3 :: int] = [0, 1, 2, 3]"
  by (simp add: upto.simps)

lemma GetResidualGraph_spec_example: "GetResidualGraph spec_example = Inr spec_example"
  by (simp add: GetResidualGraph_def ResidualAddNode_def ResidualAddEdge_def spec_example_def
      graph_eval upto_0_3)

lemma bfs_spec_example: "bfs spec_example 0 = Inr ([0, 1, 2, 3], [- 1, 0, 0, 1])"
  by (simp add: bfs_def bfsLoop.simps spec_example_def getNodeAdjList_def
      getNumNodes_def bfsVisit_step eval_nat_numeral)

lemma RetrievePath_spec_example: "RetrievePath [- 1, 0, 0, 1] 3 = Inr [0, 1, 3]"
  by (simp add: RetrievePath_def RetrievePathLoop.simps vec_at_def)

lemma GetResidualCapacity_spec_example: "GetResidualCapacity spec_example [0, 1, 3] = Inr 1"
  by (simp add: GetResidualCapacity_def GetResidualCapacityLoop_pairs [of 0, simplified]
      spec_example_def graph_eval INT_MAX_def)

lemma SendFlowInPath_spec_example:
  "SendFlowInPath spec_example [0, 1, 3] 1 = Inr spec_example_1"
  by (simp add: SendFlowInPath_foldE pairs_def SendFlowInEdge_def spec_example_def
      spec_example_1_def graph_eval)

lemma bfs_spec_example_1: "bfs spec_example_1 0 = Inr ([0, 1, 2, 3], [- 1, 0, 0, 2])"
  by (simp add: bfs_def bfsLoop.simps spec_example_1_def getNodeAdjList_def
      getNumNodes_def bfsVisit_step eval_nat_numeral)

lemma RetrievePath_spec_example_1: "RetrievePath [- 1, 0, 0, 2] 3 = Inr [0, 2, 3]"
  by (simp add: RetrievePath_def RetrievePathLoop.simps vec_at_def)

lemma GetResidualCapacity_spec_example_1: "GetResidualCapacity spec_example_1 [0, 2, 3] = Inr 1"
  by (simp add: GetResidualCapacity_def GetResidualCapacityLoop_pairs [of 0, simplified]
      spec_example_1_def graph_eval INT_MAX_def)

lemma SendFlowInPath_spec_example_1:
  "SendFlowInPath spec_example_1 [0, 2, 3] 1 = Inr spec_example_2"
  by (simp add: SendFlowInPath_foldE pairs_def SendFlowInEdge_def spec_example_1_def
      spec_example_2_def graph_eval)

lemma bfs_spec_example_2: "bfs spec_example_2 0 = Inr ([0, 1], [- 1, 0, - 1, - 1])"
  by (simp add: bfs_def bfsLoop.simps spec_example_2_def getNodeAdjList_def
      getNumNodes_def bfsVisit_step eval_nat_numeral)

lemma EdmondsKarp_spec_example:
  "EdmondsKarp spec_example 0 3 = Some (Inr (spec_example_2, 2))"
  by (simp add: EdmondsKarp_def GetResidualGraph_spec_example EdmondsKarpLoop.simps
      bfs_spec_example RetrievePath_spec_example GetResidualCapacity_spec_example
      SendFlowInPath_spec_example bfs_spec_example_1 RetrievePath_spec_example_1
      GetResidualCapacity_spec_example_1 SendFlowInPath_spec_example_1 bfs_spec_example_2)

lemma edgeList_spec_example_2:
  "edgeList spec_example_2 =
     [(0, Edge 0 1 1 1), (1, Edge 1 0 1 (- 1)), (2, Edge 2 3 1 1), (2, Edge 2 0 1 (- 2)),
      (3, Edge 3 1 1 (- 2)), (3, Edge 3 2 1 (- 1))]"
  by (simp add: edgeList_def spec_example_2_def getNumNodes_def adjOf_def upto_0_3)

lemma BellmanFord_spec_example_2: "BellmanFord spec_example_2 0 = Inr (False, [])"
  by (simp add: BellmanFord_def edgeList_spec_example_2 relaxEdge_def improves_def)
     (simp add: spec_example_2_def getNumNodes_def eval_nat_numeral relaxEdge_def improves_def)

lemma MinimumCost_spec_example_2: "MinimumCost spec_example_2 = Inr 6"
  by (simp add: MinimumCost_def spec_example_2_def getNumNodes_def getNodeAdjList_def
      addEdgeCost_def int32_def upto_0_3)

lemma CycleCancelling_spec_example:
  "CycleCancelling spec_example = Some (Inr (spec_example_2, 6))"
proof -
  have "getNumNodes spec_example - 1 = 3"
    by (simp add: spec_example_def getNumNodes_def)
  then show ?thesis
    by (simp add: CycleCancelling_def EdmondsKarp_spec_example CancelLoop.simps
        BellmanFord_spec_example_2 MinimumCost_spec_example_2)
qed

theorem CycleCancelling_minimum_cost_witness:
  "CycleCancelling spec_example = Some (Inr (spec_example_2, 6))
   \<and> negativeCostSum spec_example_2 = 6
   \<and> INT_MIN \<le> negativeCostSum spec_example_2 \<and> negativeCostSum spec_example_2 \<le> INT_MAX
   \<and> BellmanFord spec_example_2 0 = Inr (False, [])"
proof -
  have s: "negativeCostSum spec_example_2 = 6"
    by (simp add: negativeCostSum_def edgeList_spec_example_2)
  show ?thesis
    using CycleCancelling_minimum_cost [of spec_example spec_example_2 6]
      CycleCancelling_spec_example BellmanFord_spec_example_2
    by (simp add: s INT_MIN_def INT_MAX_def)
qed

text \<open>A sum that leaves the range of \<^verbatim>\<open>int\<close>: on the graph with the single edge \<open>0 \<rightarrow> 1\<close> of
  capacity 2000000000 and cost 2 the final residual graph has the edge \<open>1 \<rightarrow> 0\<close> of
  capacity 2000000000 and cost \<open>-2\<close>, and \<^verbatim>\<open>CycleCancelling\<close> reports the cost
  \<open>-294967296\<close>, where the exact sum is 4000000000.\<close>

definition large_cost_graph :: Graph where
  "large_cost_graph = Graph 2 [(0, [Edge 0 1 2000000000 2]), (1, [])] []"

definition large_cost_final :: Graph where
  "large_cost_final = Graph 2 [(0, []), (1, [Edge 1 0 2000000000 (- 2)])] []"

lemma GetResidualGraph_large_cost: "GetResidualGraph large_cost_graph = Inr large_cost_graph"
  by (simp add: GetResidualGraph_def ResidualAddNode_def ResidualAddEdge_def large_cost_graph_def
      graph_eval upto_0_1)

lemma bfs_large_cost: "bfs large_cost_graph 0 = Inr ([0, 1], [- 1, 0])"
  by (simp add: bfs_def bfsLoop.simps large_cost_graph_def getNodeAdjList_def
      getNumNodes_def bfsVisit_step eval_nat_numeral)

lemma RetrievePath_large_cost: "RetrievePath [- 1, 0] 1 = Inr [0, 1]"
  by (simp add: RetrievePath_def RetrievePathLoop.simps vec_at_def)

lemma GetResidualCapacity_large_cost:
  "GetResidualCapacity large_cost_graph [0, 1] = Inr 2000000000"
  by (simp add: GetResidualCapacity_def GetResidualCapacityLoop_pairs [of 0, simplified]
      large_cost_graph_def graph_eval)

lemma SendFlowInPath_large_cost:
  "SendFlowInPath large_cost_graph [0, 1] 2000000000 = Inr large_cost_final"
  by (simp add: SendFlowInPath_foldE pairs_def SendFlowInEdge_def large_cost_graph_def
      large_cost_final_def graph_eval)

lemma bfs_large_cost_final: "bfs large_cost_final 0 = Inr ([0], [- 1, - 1])"
  by (simp add: bfs_def bfsLoop.simps large_cost_final_def getNodeAdjList_def
      getNumNodes_def bfsVisit_step eval_nat_numeral)

lemma EdmondsKarp_large_cost:
  "EdmondsKarp large_cost_graph 0 1 = Some (Inr (large_cost_final, 2000000000))"
  by (simp add: EdmondsKarp_def GetResidualGraph_large_cost EdmondsKarpLoop.simps
      bfs_large_cost RetrievePath_large_cost GetResidualCapacity_large_cost
      SendFlowInPath_large_cost bfs_large_cost_final)

lemma edgeList_large_cost_final:
  "edgeList large_cost_final = [(1, Edge 1 0 2000000000 (- 2))]"
  by (simp add: edgeList_def large_cost_final_def getNumNodes_def adjOf_def upto_0_1)

lemma BellmanFord_large_cost_final: "BellmanFord large_cost_final 0 = Inr (False, [])"
  by (simp add: BellmanFord_def edgeList_large_cost_final relaxEdge_def improves_def)
     (simp add: large_cost_final_def getNumNodes_def eval_nat_numeral relaxEdge_def improves_def)

lemma MinimumCost_large_cost_final: "MinimumCost large_cost_final = Inr (- 294967296)"
  by (simp add: MinimumCost_def large_cost_final_def getNumNodes_def getNodeAdjList_def
      addEdgeCost_def int32_def upto_0_1)

lemma CycleCancelling_large_cost:
  "CycleCancelling large_cost_graph = Some (Inr (large_cost_final, - 294967296))
   \<and> negativeCostSum large_cost_final = 4000000000"
proof -
  have "getNumNodes large_cost_graph - 1 = 1"
    by (simp add: large_cost_graph_def getNumNodes_def)
  then show ?thesis
    by (simp add: CycleCancelling_def EdmondsKarp_large_cost CancelLoop.simps
        BellmanFord_large_cost_final MinimumCost_large_cost_final negativeCostSum_def
        edgeList_large_cost_final)
qed

section \<open>The reported cost against the cost of the optimal graph\<close>

text \<open>The sum over the edges of the original graph of \<open>flow * cost\<close>, with the flow of an
  edge read in the graph returned by \<^verbatim>\<open>GetOptimalGraph\<close>.\<close>

definition optimalFlowCost :: "Graph \<Rightarrow> Graph \<Rightarrow> int" where
  "optimalFlowCost optimal_graph graph =
     (\<Sum>p \<leftarrow> edgeList graph.
        capacityOf optimal_graph (fst p, getSink (snd p)) * getWeight (snd p))"

definition antiparallel_optimal :: Graph where
  "antiparallel_optimal = Graph 2 [(0, [Edge 0 1 1 1]), (1, [Edge 1 0 0 1])] []"

text \<open>
  Claim C2 fails on the anti-parallel pair \<open>0 \<rightarrow> 1\<close>, \<open>1 \<rightarrow> 0\<close> (capacity 1 and cost 1 each).
  One unit of flow crosses \<open>0 \<rightarrow> 1\<close>, at cost 1. \<^verbatim>\<open>CycleCancelling\<close> reports the cost 2: the
  split edge \<open>0 \<rightarrow> 2 \<rightarrow> 1\<close> leaves the two negative-cost edges \<open>2 \<rightarrow> 0\<close> and \<open>1 \<rightarrow> 2\<close> in the
  final residual graph, and both are counted. \<^verbatim>\<open>GetOptimalGraph\<close> gives the flow 1 on
  \<open>0 \<rightarrow> 1\<close> and 0 on \<open>1 \<rightarrow> 0\<close>, a total of \<open>flow * cost = 1\<close>.
\<close>

theorem CycleCancelling_cost_counts_split_edge_twice:
  "CycleCancelling antiparallel_graph = Some (Inr (antiparallel_final, 2))
   \<and> GetOptimalGraph antiparallel_final antiparallel_graph = Inr antiparallel_optimal
   \<and> optimalFlowCost antiparallel_optimal antiparallel_graph = 1"
proof -
  have "edgeList antiparallel_graph = [(0, Edge 0 1 1 1), (1, Edge 1 0 1 1)]"
    by (simp add: edgeList_def antiparallel_graph_def getNumNodes_def adjOf_def upto_0_1)
  then have "optimalFlowCost antiparallel_optimal antiparallel_graph = 1"
    by (simp add: optimalFlowCost_def capacityOf_def antiparallel_optimal_def getEdge_def
        nodeExists_def lookupEdge_def findEdge_def)
  then show ?thesis
    using CycleCancelling_antiparallel GetOptimalGraph_antiparallel
    by (simp add: antiparallel_optimal_def)
qed

end
